theory Spec2Isabelle
  imports Main
begin

section \<open>Text\<close>

text \<open>
  The runner \<^verbatim>\<open>scripts/run_ptb.py\<close> works on Python strings.  A string is modelled as
  \<^typ>\<open>string\<close>, a character being one of the code points 0 to 255.  The quote characters, the
  backslash and the line feed are written with their code.
\<close>

abbreviation squote :: char where "squote \<equiv> CHR 0x27"
abbreviation dquote :: char where "dquote \<equiv> CHR 0x22"
abbreviation backslash :: char where "backslash \<equiv> CHR 0x5C"
abbreviation linefeed :: char where "linefeed \<equiv> CHR 0x0A"

section \<open>The tokenizer: \<^verbatim>\<open>shlex.split(ptb_source, comments=True)\<close>\<close>

text \<open>
  \<^verbatim>\<open>shlex.split(s, comments=True)\<close> builds \<^verbatim>\<open>shlex(s, posix=True)\<close>, sets
  \<^verbatim>\<open>whitespace_split = True\<close>, keeps \<^verbatim>\<open>commenters = '#'\<close> and returns \<^verbatim>\<open>list(lex)\<close>.
  The character classes are the ones the constructor sets in POSIX mode;
  \<^verbatim>\<open>punctuation_chars\<close> is empty, the pushback queue and the file stack stay empty, and
  \<^verbatim>\<open>lineno\<close> and \<^verbatim>\<open>debug\<close> do not reach the result, so none of them is modelled.
\<close>

definition whitespace :: string where
  "whitespace = [CHR '' '', CHR 0x09, CHR 0x0D, CHR 0x0A]"

definition commenters :: string where
  "commenters = ''#''"

definition quotes :: string where
  "quotes = [squote, dquote]"

definition escape :: string where
  "escape = [backslash]"

definition escapedquotes :: string where
  "escapedquotes = [dquote]"

definition wordchars :: string where
  "wordchars = ''abcdfeghijklmnopqrstuvwxyzABCDEFGHIJKLMNOPQRSTUVWXYZ0123456789_'' @
     [CHR 0xDF, CHR 0xE0, CHR 0xE1, CHR 0xE2, CHR 0xE3, CHR 0xE4, CHR 0xE5, CHR 0xE6, CHR 0xE7,
      CHR 0xE8, CHR 0xE9, CHR 0xEA, CHR 0xEB, CHR 0xEC, CHR 0xED, CHR 0xEE, CHR 0xEF, CHR 0xF0,
      CHR 0xF1, CHR 0xF2, CHR 0xF3, CHR 0xF4, CHR 0xF5, CHR 0xF6, CHR 0xF8, CHR 0xF9, CHR 0xFA,
      CHR 0xFB, CHR 0xFC, CHR 0xFD, CHR 0xFE, CHR 0xFF, CHR 0xC0, CHR 0xC1, CHR 0xC2, CHR 0xC3,
      CHR 0xC4, CHR 0xC5, CHR 0xC6, CHR 0xC7, CHR 0xC8, CHR 0xC9, CHR 0xCA, CHR 0xCB, CHR 0xCC,
      CHR 0xCD, CHR 0xCE, CHR 0xCF, CHR 0xD0, CHR 0xD1, CHR 0xD2, CHR 0xD3, CHR 0xD4, CHR 0xD5,
      CHR 0xD6, CHR 0xD8, CHR 0xD9, CHR 0xDA, CHR 0xDB, CHR 0xDC, CHR 0xDD, CHR 0xDE]"

text \<open>
  The lexer's \<^verbatim>\<open>state\<close> attribute is \<^verbatim>\<open>None\<close> past the end of the input, \<^verbatim>\<open>' '\<close> between
  tokens, \<^verbatim>\<open>'a'\<close> inside a word, the quote character inside a quoted part and the escape
  character right after a backslash.  (\<^verbatim>\<open>'c'\<close> needs punctuation characters.)
\<close>

datatype lstate = S_eof | S_space | S_word | S_quote char | S_escape char

datatype value_error = No_closing_quotation | No_escaped_character

text \<open>\<^verbatim>\<open>self.instream.readline()\<close>: the rest of the line, its line feed included, is read away.\<close>

definition readline :: "string \<Rightarrow> string" where
  "readline cs = drop 1 (dropWhile (\<lambda>c. c \<noteq> linefeed) cs)"

text \<open>
  The \<^verbatim>\<open>while True\<close> loop of \<^verbatim>\<open>read_token\<close>.  The arguments are \<^verbatim>\<open>self.state\<close>,
  \<^verbatim>\<open>self.token\<close>, the locals \<^verbatim>\<open>quoted\<close> and \<^verbatim>\<open>escapedstate\<close>, and what is left of
  \<^verbatim>\<open>self.instream\<close>; every turn reads one character, \<^verbatim>\<open>''\<close> at the end of the input.
  A \<^verbatim>\<open>break\<close> returns the four values that outlive the loop, a \<^verbatim>\<open>raise\<close> returns the error.
  In the word state the last test of the source,
  \<^verbatim>\<open>nextchar in wordchars or nextchar in quotes or (whitespace_split and nextchar not in punctuation_chars)\<close>,
  holds for every character, so the pushback branch after it is never taken.
\<close>

function read_token_loop ::
  "lstate \<Rightarrow> string \<Rightarrow> bool \<Rightarrow> lstate \<Rightarrow> string \<Rightarrow> value_error + (lstate \<times> string \<times> bool \<times> string)"
where
  "read_token_loop S_eof tok quoted esc inp = Inr (S_eof, [], quoted, drop 1 inp)"
| "read_token_loop S_space tok quoted esc [] = Inr (S_eof, tok, quoted, [])"
| "read_token_loop S_space tok quoted esc (c # cs) =
     (if c \<in> set whitespace then
        (if tok \<noteq> [] \<or> quoted then Inr (S_space, tok, quoted, cs)
         else read_token_loop S_space tok quoted esc cs)
      else if c \<in> set commenters then read_token_loop S_space tok quoted esc (readline cs)
      else if c \<in> set escape then read_token_loop (S_escape c) tok quoted S_word cs
      else if c \<in> set wordchars then read_token_loop S_word [c] quoted esc cs
      else if c \<in> set quotes then read_token_loop (S_quote c) tok quoted esc cs
      else read_token_loop S_word [c] quoted esc cs)"
| "read_token_loop (S_quote q) tok quoted esc [] = Inl No_closing_quotation"
| "read_token_loop (S_quote q) tok quoted esc (c # cs) =
     (if c = q then read_token_loop S_word tok True esc cs
      else if c \<in> set escape \<and> q \<in> set escapedquotes then
        read_token_loop (S_escape c) tok True (S_quote q) cs
      else read_token_loop (S_quote q) (tok @ [c]) True esc cs)"
| "read_token_loop (S_escape e) tok quoted esc [] = Inl No_escaped_character"
| "read_token_loop (S_escape e) tok quoted esc (c # cs) =
     read_token_loop esc
       ((if (case esc of S_quote q \<Rightarrow> c \<noteq> e \<and> c \<noteq> q | _ \<Rightarrow> False) then tok @ [e] else tok) @ [c])
       quoted esc cs"
| "read_token_loop S_word tok quoted esc [] = Inr (S_eof, tok, quoted, [])"
| "read_token_loop S_word tok quoted esc (c # cs) =
     (if c \<in> set whitespace then
        (if tok \<noteq> [] \<or> quoted then Inr (S_space, tok, quoted, cs)
         else read_token_loop S_space tok quoted esc cs)
      else if c \<in> set commenters then
        (if tok \<noteq> [] \<or> quoted then Inr (S_space, tok, quoted, readline cs)
         else read_token_loop S_space tok quoted esc (readline cs))
      else if c \<in> set quotes then read_token_loop (S_quote c) tok quoted esc cs
      else if c \<in> set escape then read_token_loop (S_escape c) tok quoted S_word cs
      else read_token_loop S_word (tok @ [c]) quoted esc cs)"
  by pat_completeness auto
termination
  by (relation "measure (\<lambda>(st, tok, quoted, esc, inp). length inp)")
     (auto simp: readline_def intro: le_imp_less_Suc order_trans [OF diff_le_self length_dropWhile_le])

text \<open>
  The lexer object, as far as \<^verbatim>\<open>read_token\<close> reads and writes it.
\<close>

record lexer =
  instream :: string
  state :: lstate
  token :: string

text \<open>\<^verbatim>\<open>shlex(s, posix=True)\<close>: the constructor wraps the string in a stream and starts between tokens.\<close>

definition shlex :: "string \<Rightarrow> lexer" where
  "shlex s = \<lparr>instream = s, state = S_space, token = []\<rparr>"

text \<open>
  \<^verbatim>\<open>read_token\<close>: the loop, then \<^verbatim>\<open>result = self.token; self.token = ''\<close>, and the result is
  \<^verbatim>\<open>None\<close> when it is empty and no quote was seen.
\<close>

definition read_token :: "lexer \<Rightarrow> value_error + (string option \<times> lexer)" where
  "read_token lx =
     (case read_token_loop (state lx) (token lx) False S_space (instream lx) of
        Inl e \<Rightarrow> Inl e
      | Inr (st, tok, quoted, inp) \<Rightarrow>
          Inr (if \<not> quoted \<and> tok = [] then None else Some tok,
               \<lparr>instream = inp, state = st, token = []\<rparr>))"

text \<open>
  What one call of the loop costs: the characters left, and one more as long as the end of
  the input has not been seen.  A call never raises this number, and lowers it unless it
  starts past the end.
\<close>

definition lex_size :: "lstate \<Rightarrow> string \<Rightarrow> nat" where
  "lex_size st inp = length inp + (if st = S_eof then 0 else 1)"

lemma length_readline_le: "length (readline cs) \<le> length cs"
proof -
  have "length (readline cs) \<le> length (dropWhile (\<lambda>c. c \<noteq> linefeed) cs)"
    by (simp add: readline_def)
  also have "\<dots> \<le> length cs" by (rule length_dropWhile_le)
  finally show ?thesis .
qed

lemma read_token_loop_size:
  "read_token_loop st tok quoted esc inp = Inr (st', tok', quoted', inp') \<Longrightarrow>
     lex_size st' inp' \<le> lex_size st inp \<and> (st \<noteq> S_eof \<longrightarrow> lex_size st' inp' < lex_size st inp)"
proof (induction st tok quoted esc inp rule: read_token_loop.induct)
  case (1 tok quoted esc inp)
  then show ?case by (auto simp: lex_size_def)
next
  case (2 tok quoted esc)
  then show ?case by (auto simp: lex_size_def)
next
  case (3 tok quoted esc c cs)
  have r: "length (readline cs) \<le> length cs" by (rule length_readline_le)
  have *: "lex_size st' inp' \<le> length cs + 1"
    using 3 r by (simp add: lex_size_def split: if_splits)
  then show ?case by (simp add: lex_size_def)
next
  case (4 q tok quoted esc)
  then show ?case by simp
next
  case (5 q tok quoted esc c cs)
  have *: "lex_size st' inp' \<le> length cs + 1"
    using 5 by (simp add: lex_size_def split: if_splits)
  then show ?case by (simp add: lex_size_def)
next
  case (6 e tok quoted esc)
  then show ?case by simp
next
  case (7 e tok quoted esc c cs)
  have *: "lex_size st' inp' \<le> length cs + 1"
    using 7 by (simp add: lex_size_def split: if_splits)
  then show ?case by (simp add: lex_size_def)
next
  case (8 tok quoted esc)
  then show ?case by (auto simp: lex_size_def)
next
  case (9 tok quoted esc c cs)
  have r: "length (readline cs) \<le> length cs" by (rule length_readline_le)
  have *: "lex_size st' inp' \<le> length cs + 1"
    using 9 r by (simp add: lex_size_def split: if_splits)
  then show ?case by (simp add: lex_size_def)
qed

lemma read_token_loop_eof:
  "read_token_loop S_eof tok quoted esc inp = Inr (st', tok', quoted', inp') \<Longrightarrow> tok' = [] \<and> quoted' = quoted"
  by simp

lemma read_token_size:
  assumes "read_token lx = Inr (Some t, lx')"
  shows "lex_size (state lx') (instream lx') < lex_size (state lx) (instream lx)"
proof -
  from assms obtain st tok quoted inp where
    loop: "read_token_loop (state lx) (token lx) False S_space (instream lx) = Inr (st, tok, quoted, inp)"
    and res: "\<not> (\<not> quoted \<and> tok = [])" and lx': "lx' = \<lparr>instream = inp, state = st, token = []\<rparr>"
    by (auto simp: read_token_def split: sum.splits if_splits)
  have "state lx \<noteq> S_eof"
  proof
    assume "state lx = S_eof"
    with loop res show False by simp
  qed
  with read_token_loop_size [OF loop] show ?thesis by (simp add: lx')
qed

text \<open>
  \<^verbatim>\<open>list(lex)\<close> calls \<^verbatim>\<open>__next__\<close> until it raises \<^verbatim>\<open>StopIteration\<close>.  \<^verbatim>\<open>__next__\<close> takes
  \<^verbatim>\<open>get_token()\<close>, which with an empty pushback queue, no \<^verbatim>\<open>source\<close> keyword and an empty file
  stack is \<^verbatim>\<open>read_token()\<close>, and stops on \<^verbatim>\<open>self.eof\<close>, which is \<^verbatim>\<open>None\<close> in POSIX mode.
\<close>

function lexer_list :: "lexer \<Rightarrow> value_error + string list" where
  "lexer_list lx =
     (case read_token lx of
        Inl e \<Rightarrow> Inl e
      | Inr (None, lx') \<Rightarrow> Inr []
      | Inr (Some t, lx') \<Rightarrow>
          (case lexer_list lx' of Inl e \<Rightarrow> Inl e | Inr ts \<Rightarrow> Inr (t # ts)))"
  by pat_completeness auto
termination
proof (relation "measure (\<lambda>lx. lex_size (state lx) (instream lx))")
  show "wf (measure (\<lambda>lx. lex_size (state lx) (instream lx)))" by simp
next
  fix lx :: lexer and b x y t
  assume "read_token lx = Inr b" and "(x, y) = b" and "x = Some t"
  then have "read_token lx = Inr (Some t, y)" by simp
  then show "(y, lx) \<in> measure (\<lambda>lx. lex_size (state lx) (instream lx))"
    by (simp add: read_token_size)
qed

declare lexer_list.simps [simp del]

definition shlex_split :: "string \<Rightarrow> value_error + string list" where
  "shlex_split s = lexer_list (shlex s)"

section \<open>The expander: \<^verbatim>\<open>expand_env\<close>\<close>

text \<open>
  \<^verbatim>\<open>ENV_VAR_PATTERN = re.compile(r"\$(\w+)|\$\{([^}]+)\}")\<close>.  For a \<^verbatim>\<open>str\<close> pattern \<^verbatim>\<open>\w\<close> is
  a letter, a digit or a numeric character of Unicode, or the underscore; these are the ones
  among the code points below 256.
\<close>

definition is_word_char :: "char \<Rightarrow> bool" where
  "is_word_char c =
     (let n = (of_char c :: nat) in
        (48 \<le> n \<and> n \<le> 57) \<or> (65 \<le> n \<and> n \<le> 90) \<or> n = 95 \<or> (97 \<le> n \<and> n \<le> 122) \<or>
        n = 170 \<or> (178 \<le> n \<and> n \<le> 179) \<or> n = 181 \<or> (185 \<le> n \<and> n \<le> 186) \<or>
        (188 \<le> n \<and> n \<le> 190) \<or> (192 \<le> n \<and> n \<le> 214) \<or> (216 \<le> n \<and> n \<le> 246) \<or> 248 \<le> n)"

text \<open>
  The first alternative at the head of a string, \<^verbatim>\<open>\$(\w+)\<close>: the dollar sign and the longest
  run of word characters, which must not be empty.  The result is group 1 and the text after
  the match.
\<close>

definition match_bare :: "string \<Rightarrow> (string \<times> string) option" where
  "match_bare s =
     (case s of
        d # cs \<Rightarrow>
          if d = CHR ''$'' \<and> takeWhile is_word_char cs \<noteq> []
          then Some (takeWhile is_word_char cs, dropWhile is_word_char cs) else None
      | [] \<Rightarrow> None)"

text \<open>
  The second alternative, \<^verbatim>\<open>\$\{([^}]+)\}\<close>: dollar sign, opening brace, the longest run of
  characters other than the closing brace, which must not be empty, and the closing brace.
  The result is group 2 and the text after the match.
\<close>

definition match_braced :: "string \<Rightarrow> (string \<times> string) option" where
  "match_braced s =
     (case s of
        d # b # cs \<Rightarrow>
          if d = CHR ''$'' \<and> b = CHR ''{'' \<and> takeWhile (\<lambda>c. c \<noteq> CHR ''}'') cs \<noteq> [] \<and>
             dropWhile (\<lambda>c. c \<noteq> CHR ''}'') cs \<noteq> []
          then Some (takeWhile (\<lambda>c. c \<noteq> CHR ''}'') cs, tl (dropWhile (\<lambda>c. c \<noteq> CHR ''}'') cs))
          else None
      | _ \<Rightarrow> None)"

text \<open>
  A match of the pattern at the head of a string; the alternatives are tried in order.  The
  name is \<^verbatim>\<open>match.group(1) or match.group(2)\<close>: group 1 is a non-empty string when the first
  alternative matched and \<^verbatim>\<open>None\<close> otherwise.
\<close>

definition ENV_VAR_PATTERN :: "string \<Rightarrow> (string \<times> string) option" where
  "ENV_VAR_PATTERN s = (case match_bare s of Some r \<Rightarrow> Some r | None \<Rightarrow> match_braced s)"

text \<open>
  Exceptions that leave \<^verbatim>\<open>main\<close>.  A function that prints on the standard error stream and
  then raises returns the lines it printed with the exception.
\<close>

datatype exn = SystemExit int | ValueError value_error | OSError | UnicodeDecodeError

type_synonym failure = "string list \<times> exn"

text \<open>The callback \<^verbatim>\<open>replace\<close>, on the name of a match; \<^verbatim>\<open>os.environ\<close> is an argument.\<close>

definition replace :: "(string \<rightharpoonup> string) \<Rightarrow> string \<Rightarrow> failure + string" where
  "replace environ name =
     (case environ name of
        None \<Rightarrow> Inl ([''Missing required environment variable: '' @ name], SystemExit 1)
      | Some v \<Rightarrow> Inr v)"

lemma match_bare_shorter: "match_bare s = Some (name, rest) \<Longrightarrow> length rest < length s"
  by (auto simp: match_bare_def split: list.splits if_splits
           intro: le_imp_less_Suc length_dropWhile_le)

lemma match_braced_shorter: "match_braced s = Some (name, rest) \<Longrightarrow> length rest < length s"
proof -
  assume m: "match_braced s = Some (name, rest)"
  then obtain d b cs where s: "s = d # b # cs"
    and rest: "rest = tl (dropWhile (\<lambda>c. c \<noteq> CHR ''}'') cs)"
    by (auto simp: match_braced_def split: list.splits if_splits)
  have "length rest \<le> length (dropWhile (\<lambda>c. c \<noteq> CHR ''}'') cs)" by (simp add: rest)
  also have "\<dots> \<le> length cs" by (rule length_dropWhile_le)
  finally show ?thesis by (simp add: s)
qed

lemma ENV_VAR_PATTERN_shorter:
  "ENV_VAR_PATTERN s = Some (name, rest) \<Longrightarrow> length rest < length s"
  by (auto simp: ENV_VAR_PATTERN_def split: option.splits
           dest: match_bare_shorter match_braced_shorter)

text \<open>
  \<^verbatim>\<open>ENV_VAR_PATTERN.sub(replace, token)\<close>: the token is scanned from the left; where the
  pattern matches, the callback's value is copied to the output and the scan goes on after
  the match; elsewhere one character is copied.  The pattern has no empty match.  An
  exception of the callback ends the scan.
\<close>

function expand_env :: "(string \<rightharpoonup> string) \<Rightarrow> string \<Rightarrow> failure + string" where
  "expand_env environ [] = Inr []"
| "expand_env environ (c # cs) =
     (case ENV_VAR_PATTERN (c # cs) of
        Some (name, rest) \<Rightarrow>
          (case replace environ name of
             Inl f \<Rightarrow> Inl f
           | Inr v \<Rightarrow> (case expand_env environ rest of Inl f \<Rightarrow> Inl f | Inr r \<Rightarrow> Inr (v @ r)))
      | None \<Rightarrow> (case expand_env environ cs of Inl f \<Rightarrow> Inl f | Inr r \<Rightarrow> Inr (c # r)))"
  by pat_completeness auto
termination
proof (relation "measure (\<lambda>(environ, s). length s)")
  show "wf (measure (\<lambda>(environ :: string \<rightharpoonup> string, s :: string). length s))" by simp
next
  fix environ :: "string \<rightharpoonup> string" and c cs x2 x y v
  assume "ENV_VAR_PATTERN (c # cs) = Some x2" and "(x, y) = x2"
  then have "ENV_VAR_PATTERN (c # cs) = Some (x, y)" by simp
  then have "length y < length (c # cs)" by (rule ENV_VAR_PATTERN_shorter)
  then show "((environ, y), (environ, c # cs)) \<in> measure (\<lambda>(environ, s). length s)" by simp
next
  fix environ :: "string \<rightharpoonup> string" and c :: char and cs :: string
  show "((environ, cs), (environ, c # cs)) \<in> measure (\<lambda>(environ, s). length s)" by simp
qed

declare expand_env.simps(2) [simp del]

text \<open>
  The comprehension \<^verbatim>\<open>[expand_env(tok) for tok in ...]\<close> over a list of tokens, in order; the
  first exception ends it.
\<close>

fun expand_tokens :: "(string \<rightharpoonup> string) \<Rightarrow> string list \<Rightarrow> failure + string list" where
  "expand_tokens environ [] = Inr []"
| "expand_tokens environ (tok # toks) =
     (case expand_env environ tok of
        Inl f \<Rightarrow> Inl f
      | Inr t \<Rightarrow> (case expand_tokens environ toks of Inl f \<Rightarrow> Inl f | Inr ts \<Rightarrow> Inr (t # ts)))"

section \<open>The command line printed before the run: \<^verbatim>\<open>shlex.join\<close>\<close>

text \<open>
  \<^verbatim>\<open>shlex.quote\<close> leaves a non-empty string alone when
  \<^verbatim>\<open>re.compile(r'[^\w@%+=:,./-]', re.ASCII).search\<close> finds nothing in it, and otherwise wraps
  it in single quotes, a single quote inside becoming \<^verbatim>\<open>'"'"'\<close>.
\<close>

definition is_safe_char :: "char \<Rightarrow> bool" where
  "is_safe_char c =
     (let n = (of_char c :: nat) in
        (48 \<le> n \<and> n \<le> 57) \<or> (65 \<le> n \<and> n \<le> 90) \<or> n = 95 \<or> (97 \<le> n \<and> n \<le> 122) \<or>
        c \<in> set ''@%+=:,./-'')"

definition shlex_quote :: "string \<Rightarrow> string" where
  "shlex_quote s =
     (if s = [] then [squote, squote]
      else if list_all is_safe_char s then s
      else [squote] @
           concat (map (\<lambda>c. if c = squote then [squote, dquote, squote, dquote, squote] else [c]) s) @
           [squote])"

fun str_join :: "string \<Rightarrow> string list \<Rightarrow> string" where
  "str_join sep [] = []"
| "str_join sep [x] = x"
| "str_join sep (x # y # ys) = x @ sep @ str_join sep (y # ys)"

definition shlex_join :: "string list \<Rightarrow> string" where
  "shlex_join split_command = str_join '' '' (map shlex_quote split_command)"

section \<open>The run: \<^verbatim>\<open>main\<close>\<close>

text \<open>
  \<^verbatim>\<open>parse_args\<close> is \<^verbatim>\<open>argparse\<close>; its result, the path and the list \<^verbatim>\<open>extra\<close>, is the input
  here.
\<close>

record args =
  ptb_path :: string
  extra :: "string list"

text \<open>
  What the run meets outside the program: the files (\<^verbatim>\<open>Path.read_text\<close> returns the text or
  raises), the process environment \<^verbatim>\<open>os.environ\<close>, and the operating system's answer to
  starting a command: the child could not be started, or it ran and ended with a return code.
\<close>

datatype child = Not_started | Exited int

record world =
  read_text :: "string \<Rightarrow> exn + string"
  environ :: "string \<rightharpoonup> string"
  spawn :: "string list \<Rightarrow> child"

text \<open>
  What the run does, in order: a line printed on standard output, a line printed on standard
  error, the external command handed to \<^verbatim>\<open>subprocess.run\<close>, and the traceback the interpreter
  writes on standard error when an exception other than \<^verbatim>\<open>SystemExit\<close> leaves the program.
\<close>

datatype event = Stdout string | Stderr string | Run "string list" | Traceback exn

text \<open>
  Line 55: \<^verbatim>\<open>tokens = [expand_env(tok) for tok in shlex.split(ptb_source, comments=True)]\<close>.
  The split is finished before the first token is expanded, and its \<^verbatim>\<open>ValueError\<close> is not
  caught.
\<close>

definition script_tokens :: "(string \<rightharpoonup> string) \<Rightarrow> string \<Rightarrow> failure + string list" where
  "script_tokens env ptb_source =
     (case shlex_split ptb_source of
        Inl e \<Rightarrow> Inl ([], ValueError e)
      | Inr toks \<Rightarrow> expand_tokens env toks)"

text \<open>
  \<^verbatim>\<open>subprocess.run(cmd, check=True)\<close> inside \<^verbatim>\<open>try\<close>: a child that cannot be started raises
  an \<^verbatim>\<open>OSError\<close>, which the \<^verbatim>\<open>except subprocess.CalledProcessError\<close> clause does not catch; a
  return code other than 0 raises \<^verbatim>\<open>CalledProcessError\<close>, and the clause returns
  \<^verbatim>\<open>exc.returncode\<close>; otherwise \<^verbatim>\<open>main\<close> returns 0.
\<close>

definition run_checked :: "world \<Rightarrow> string list \<Rightarrow> exn + int" where
  "run_checked w cmd =
     (case spawn w cmd of
        Not_started \<Rightarrow> Inl OSError
      | Exited returncode \<Rightarrow> if returncode \<noteq> 0 then Inr returncode else Inr 0)"

text \<open>\<^verbatim>\<open>main\<close>: the events in order, and the value returned or the exception raised.\<close>

definition main :: "world \<Rightarrow> args \<Rightarrow> event list \<times> (exn + int)" where
  "main w a =
     (case read_text w (ptb_path a) of
        Inl e \<Rightarrow> ([], Inl e)
      | Inr ptb_source \<Rightarrow>
          (case script_tokens (environ w) ptb_source of
             Inl (lines, e) \<Rightarrow> (map Stderr lines, Inl e)
           | Inr tokens \<Rightarrow>
               if tokens = [] then
                 ([Stderr (''No PTB commands found in '' @ ptb_path a)], Inr 1)
               else
                 (let cmd = [''sui'', ''client'', ''ptb''] @ extra a @ tokens
                  in ([Stdout (''Executing: '' @ shlex_join cmd), Run cmd], run_checked w cmd))))"

text \<open>
  The status a process ends with when \<^verbatim>\<open>SystemExit(n)\<close> leaves the program: the interpreter
  hands \<^verbatim>\<open>n\<close>, read as a C \<^verbatim>\<open>long\<close> (64 bits), to \<^verbatim>\<open>exit\<close>, and the operating system keeps
  the low eight bits; an \<^verbatim>\<open>n\<close> that does not fit a \<^verbatim>\<open>long\<close> is read as -1.
\<close>

definition exit_status :: "int \<Rightarrow> int" where
  "exit_status n = (if - (2 ^ 63) \<le> n \<and> n < 2 ^ 63 then n mod 256 else 255)"

text \<open>
  The program: \<^verbatim>\<open>raise SystemExit(main())\<close>.  The exit code comes from the argument of
  \<^verbatim>\<open>SystemExit\<close>, whether \<^verbatim>\<open>main\<close> returned it or \<^verbatim>\<open>replace\<close> raised it; any other exception
  ends the interpreter with a traceback and the exit code 1.
\<close>

definition script :: "world \<Rightarrow> args \<Rightarrow> event list \<times> int" where
  "script w a =
     (case main w a of
        (evs, Inr code) \<Rightarrow> (evs, exit_status code)
      | (evs, Inl (SystemExit code)) \<Rightarrow> (evs, exit_status code)
      | (evs, Inl e) \<Rightarrow> (evs @ [Traceback e], 1))"

section \<open>Reading a run\<close>

text \<open>The external commands of a run, in order.\<close>

fun invocations :: "event list \<Rightarrow> string list list" where
  "invocations [] = []"
| "invocations (Run cmd # evs) = cmd # invocations evs"
| "invocations (Stdout l # evs) = invocations evs"
| "invocations (Stderr l # evs) = invocations evs"
| "invocations (Traceback e # evs) = invocations evs"

text \<open>
  A world for examples: every path holds the same script, and every command gets the same
  answer from the operating system.
\<close>

definition demo_world :: "string \<Rightarrow> (string \<rightharpoonup> string) \<Rightarrow> child \<Rightarrow> world" where
  "demo_world src env ch = \<lparr>read_text = (\<lambda>p. Inr src), environ = env, spawn = (\<lambda>cmd. ch)\<rparr>"

definition demo_args :: args where
  "demo_args = \<lparr>ptb_path = ''demo.ptb'', extra = [''--dry-run'']\<rparr>"

text \<open>Scripts and environments for examples.\<close>

definition comment_script :: string where
  "comment_script = ''# setup'' @ [linefeed] @ ''   # nothing here''"

definition open_script :: string where
  "open_script = ''move '' @ [dquote] @ ''a b''"

definition demo_env :: "string \<rightharpoonup> string" where
  "demo_env = [''SRC'' \<mapsto> ''a b'', ''DST'' \<mapsto> ''$SRC'', ''my var'' \<mapsto> ''it'' @ [squote] @ ''s'']"

definition spaced_env :: "string \<rightharpoonup> string" where
  "spaced_env = [''WHO'' \<mapsto> ''big  world '' @ [squote] @ ''x'']"

section \<open>Notions of the specification\<close>

text \<open>
  A character that the tokenizer copies into a word as it stands: no whitespace, no comment
  sign, no quote and no backslash.
\<close>

definition is_plain :: "char \<Rightarrow> bool" where
  "is_plain c = (c \<notin> set whitespace \<and> c \<notin> set commenters \<and> c \<notin> set quotes \<and> c \<notin> set escape)"

text \<open>
  A script of comments and whitespace only, read from the left: outside a comment a
  character is whitespace or the comment sign; a comment runs through the next line feed.
\<close>

fun blank_from :: "bool \<Rightarrow> string \<Rightarrow> bool" where
  "blank_from in_comment [] = True"
| "blank_from True (c # cs) = blank_from (c \<noteq> linefeed) cs"
| "blank_from False (c # cs) =
     (if c = CHR ''#'' then blank_from True cs else c \<in> set whitespace \<and> blank_from False cs)"

definition only_comments_and_whitespace :: "string \<Rightarrow> bool" where
  "only_comments_and_whitespace s = blank_from False s"

text \<open>
  Shell quoting, read from the left without building tokens: outside quotes a backslash
  takes the next character, a quote character opens a quoted part and the comment sign
  opens a comment; a quoted part ends at the same quote character; inside double quotes a
  backslash takes the next character.  A script has an unterminated quote when it ends
  inside a quoted part.
\<close>

datatype qmode = Outside | In_comment | In_quote char | Escaped_outside | Escaped_in char

fun scan_quotes :: "qmode \<Rightarrow> string \<Rightarrow> qmode" where
  "scan_quotes m [] = m"
| "scan_quotes Outside (c # cs) =
     scan_quotes (if c = CHR ''#'' then In_comment
                  else if c = backslash then Escaped_outside
                  else if c = squote \<or> c = dquote then In_quote c
                  else Outside) cs"
| "scan_quotes In_comment (c # cs) = scan_quotes (if c = linefeed then Outside else In_comment) cs"
| "scan_quotes (In_quote q) (c # cs) =
     scan_quotes (if c = q then Outside
                  else if c = backslash \<and> q = dquote then Escaped_in q
                  else In_quote q) cs"
| "scan_quotes Escaped_outside (c # cs) = scan_quotes Outside cs"
| "scan_quotes (Escaped_in q) (c # cs) = scan_quotes (In_quote q) cs"

fun open_quote :: "qmode \<Rightarrow> bool" where
  "open_quote (In_quote q) = True"
| "open_quote (Escaped_in q) = True"
| "open_quote Outside = False"
| "open_quote In_comment = False"
| "open_quote Escaped_outside = False"

definition unterminated_quote :: "string \<Rightarrow> bool" where
  "unterminated_quote s = open_quote (scan_quotes Outside s)"

text \<open>
  Scripts written word by word.  A word is a row of parts with nothing between them: bare
  text of plain characters, a single-quoted part, or a double-quoted part without a
  backslash; the words of a script are separated by one blank.  \<open>word_text\<close> is the word
  as written in the script, \<open>word_value\<close> the same word with the quote characters taken
  away.
\<close>

datatype part = Bare string | Single string | Double string

fun part_text :: "part \<Rightarrow> string" where
  "part_text (Bare s) = s"
| "part_text (Single s) = squote # s @ [squote]"
| "part_text (Double s) = dquote # s @ [dquote]"

fun part_value :: "part \<Rightarrow> string" where
  "part_value (Bare s) = s"
| "part_value (Single s) = s"
| "part_value (Double s) = s"

fun is_quoted :: "part \<Rightarrow> bool" where
  "is_quoted (Bare s) = False"
| "is_quoted (Single s) = True"
| "is_quoted (Double s) = True"

fun valid_part :: "part \<Rightarrow> bool" where
  "valid_part (Bare s) = (s \<noteq> [] \<and> list_all is_plain s)"
| "valid_part (Single s) = (squote \<notin> set s)"
| "valid_part (Double s) = (dquote \<notin> set s \<and> backslash \<notin> set s)"

definition word_text :: "part list \<Rightarrow> string" where
  "word_text w = concat (map part_text w)"

definition word_value :: "part list \<Rightarrow> string" where
  "word_value w = concat (map part_value w)"

definition valid_word :: "part list \<Rightarrow> bool" where
  "valid_word w = (w \<noteq> [] \<and> list_all valid_part w)"

definition script_text :: "part list list \<Rightarrow> string" where
  "script_text ws = str_join '' '' (map word_text ws)"

definition quoted_script :: "part list list" where
  "quoted_script =
     [[Bare ''move''], [Single ''$SRC''], [Bare ''to='', Double ''$DST x'', Single ''${my var}'']]"

text \<open>
  The pieces of a token, from the left: a reference, where the pattern matches, or one
  character of text.  \<open>references\<close> lists the names in order; \<open>substitute\<close> puts the value
  of the environment in the place of each reference and copies the text.
\<close>

datatype piece = Text char | Reference string

function pieces :: "string \<Rightarrow> piece list" where
  "pieces [] = []"
| "pieces (c # cs) =
     (case ENV_VAR_PATTERN (c # cs) of
        Some (name, rest) \<Rightarrow> Reference name # pieces rest
      | None \<Rightarrow> Text c # pieces cs)"
  by pat_completeness auto
termination
proof (relation "measure length")
  show "wf (measure (length :: string \<Rightarrow> nat))" by simp
next
  fix c cs x2 x y
  assume "ENV_VAR_PATTERN (c # cs) = Some x2" and "(x, y) = x2"
  then have "ENV_VAR_PATTERN (c # cs) = Some (x, y)" by simp
  then have "length y < length (c # cs)" by (rule ENV_VAR_PATTERN_shorter)
  then show "(y, c # cs) \<in> measure length" by simp
next
  fix c :: char and cs :: string
  show "(cs, c # cs) \<in> measure length" by simp
qed

declare pieces.simps(2) [simp del]

fun references :: "piece list \<Rightarrow> string list" where
  "references [] = []"
| "references (Reference name # ps) = name # references ps"
| "references (Text c # ps) = references ps"

fun substitute :: "(string \<rightharpoonup> string) \<Rightarrow> piece list \<Rightarrow> string" where
  "substitute env [] = []"
| "substitute env (Text c # ps) = c # substitute env ps"
| "substitute env (Reference name # ps) =
     (case env name of Some v \<Rightarrow> v | None \<Rightarrow> []) @ substitute env ps"

text \<open>What \<^verbatim>\<open>replace\<close> does for a name that the environment lacks.\<close>

definition missing :: "string \<Rightarrow> failure" where
  "missing name = ([''Missing required environment variable: '' @ name], SystemExit 1)"

section \<open>The tokenizer, step by step\<close>

declare read_token_loop.simps(3,5,7,9) [simp del]

lemma in_whitespace:
  "c \<in> set whitespace \<longleftrightarrow> c = CHR '' '' \<or> c = CHR 0x09 \<or> c = CHR 0x0D \<or> c = linefeed"
  by (auto simp: whitespace_def)

lemma in_commenters: "c \<in> set commenters \<longleftrightarrow> c = CHR ''#''"
  by (simp add: commenters_def)

lemma in_quotes: "c \<in> set quotes \<longleftrightarrow> c = squote \<or> c = dquote"
  by (auto simp: quotes_def)

lemma in_escape: "c \<in> set escape \<longleftrightarrow> c = backslash"
  by (simp add: escape_def)

lemma in_escapedquotes: "q \<in> set escapedquotes \<longleftrightarrow> q = dquote"
  by (simp add: escapedquotes_def)

lemma loop_space_plain:
  "is_plain c \<Longrightarrow>
   read_token_loop S_space tok quoted esc (c # cs) = read_token_loop S_word [c] quoted esc cs"
  by (simp add: is_plain_def read_token_loop.simps)

lemma loop_word_plain:
  "is_plain c \<Longrightarrow>
   read_token_loop S_word tok quoted esc (c # cs) = read_token_loop S_word (tok @ [c]) quoted esc cs"
  by (simp add: is_plain_def read_token_loop.simps)

lemma loop_word_plain_all:
  "list_all is_plain cs \<Longrightarrow>
   read_token_loop S_word tok quoted esc cs = Inr (S_eof, tok @ cs, quoted, [])"
  by (induction cs arbitrary: tok) (simp_all add: loop_word_plain)

lemma lexer_list_eof:
  "lexer_list \<lparr>instream = inp, state = S_eof, token = tok\<rparr> = Inr []"
  by (simp add: lexer_list.simps read_token_def)

lemma shlex_split_plain:
  assumes "tok \<noteq> []" and "list_all is_plain tok"
  shows "shlex_split tok = Inr [tok]"
proof -
  from assms obtain c cs where tok: "tok = c # cs" and c: "is_plain c" and cs: "list_all is_plain cs"
    by (cases tok) auto
  have "read_token_loop S_space [] False S_space (c # cs) = Inr (S_eof, c # cs, False, [])"
    by (simp add: loop_space_plain [OF c] loop_word_plain_all [OF cs])
  then have "read_token (shlex tok) = Inr (Some tok, \<lparr>instream = [], state = S_eof, token = []\<rparr>)"
    by (simp add: read_token_def shlex_def tok)
  then show ?thesis
    by (simp add: shlex_split_def lexer_list.simps [of "shlex tok"] lexer_list_eof)
qed

lemma readline_Nil [simp]: "readline [] = []"
  by (simp add: readline_def)

lemma readline_Cons: "readline (c # cs) = (if c = linefeed then cs else readline cs)"
  by (simp add: readline_def)

lemma blank_from_comment: "blank_from True cs = blank_from False (readline cs)"
  by (induction cs) (simp_all add: readline_Cons)

lemma loop_blank:
  "blank_from False cs \<Longrightarrow> read_token_loop S_space [] False esc cs = Inr (S_eof, [], False, [])"
proof (induction cs rule: length_induct)
  case (1 cs)
  show ?case
  proof (cases cs)
    case Nil
    then show ?thesis by simp
  next
    case (Cons c ds)
    show ?thesis
    proof (cases "c = CHR ''#''")
      case True
      have len: "length (readline ds) < length cs"
        using length_readline_le [of ds] by (simp add: Cons)
      have "blank_from False (readline ds)"
        using "1.prems" by (simp add: Cons True blank_from_comment)
      with 1 len have "read_token_loop S_space [] False esc (readline ds) = Inr (S_eof, [], False, [])"
        by blast
      then show ?thesis
        by (simp add: Cons True read_token_loop.simps(3) in_whitespace in_commenters)
    next
      case False
      with "1.prems" have ws: "c \<in> set whitespace" and rest: "blank_from False ds"
        by (simp_all add: Cons)
      from 1 rest have "read_token_loop S_space [] False esc ds = Inr (S_eof, [], False, [])"
        by (simp add: Cons)
      with ws show ?thesis
        by (simp add: Cons read_token_loop.simps(3))
    qed
  qed
qed

lemma shlex_split_blank:
  "only_comments_and_whitespace s \<Longrightarrow> shlex_split s = Inr []"
  by (simp add: only_comments_and_whitespace_def shlex_split_def shlex_def
                lexer_list.simps [of "\<lparr>instream = s, state = S_space, token = []\<rparr>"]
                read_token_def loop_blank)

lemma loop_squote_body:
  "squote \<notin> set body \<Longrightarrow>
   read_token_loop (S_quote squote) tok quoted esc (body @ squote # rest) =
   read_token_loop S_word (tok @ body) True esc rest"
proof (induction body arbitrary: tok quoted)
  case Nil
  then show ?case by (simp add: read_token_loop.simps(5))
next
  case (Cons c body)
  then show ?case by (auto simp: read_token_loop.simps(5) in_escapedquotes)
qed

lemma shlex_split_single_quoted:
  assumes "squote \<notin> set body"
  shows "shlex_split (squote # body @ [squote]) = Inr [body]"
proof -
  have "read_token_loop S_space [] False S_space (squote # body @ [squote]) =
        read_token_loop (S_quote squote) [] False S_space (body @ [squote])"
    by (simp add: read_token_loop.simps(3) in_whitespace in_commenters in_escape in_quotes wordchars_def)
  also have "\<dots> = Inr (S_eof, body, True, [])"
    by (simp add: loop_squote_body [OF assms])
  finally have "read_token (shlex (squote # body @ [squote])) =
      Inr (Some body, \<lparr>instream = [], state = S_eof, token = []\<rparr>)"
    by (simp add: read_token_def shlex_def)
  then show ?thesis
    by (simp add: shlex_split_def lexer_list.simps [of "shlex (squote # body @ [squote])"] lexer_list_eof)
qed

section \<open>The tokenizer against the quote scanner\<close>

text \<open>
  The quoting mode that a lexer state stands for, and the states in which the saved
  \<^verbatim>\<open>escapedstate\<close> is one the lexer has set itself.
\<close>

fun mode_of :: "lstate \<Rightarrow> lstate \<Rightarrow> qmode" where
  "mode_of (S_quote q) esc = In_quote q"
| "mode_of (S_escape e) (S_quote q) = Escaped_in q"
| "mode_of (S_escape e) esc = Escaped_outside"
| "mode_of st esc = Outside"

fun esc_ok :: "lstate \<Rightarrow> lstate \<Rightarrow> bool" where
  "esc_ok (S_escape e) esc = (esc = S_word \<or> (\<exists>q. esc = S_quote q))"
| "esc_ok S_eof esc = True"
| "esc_ok st esc = True"

lemma scan_comment_readline:
  "open_quote (scan_quotes In_comment cs) = open_quote (scan_quotes Outside (readline cs))"
  by (induction cs) (simp_all add: readline_Cons)

lemma scan_whitespace:
  "c \<in> set whitespace \<Longrightarrow> scan_quotes Outside (c # cs) = scan_quotes Outside cs"
  by (auto simp: in_whitespace)

lemma loop_space_step:
  "read_token_loop S_space tok quoted esc (c # cs) =
     (if c \<in> set whitespace then
        (if tok \<noteq> [] \<or> quoted then Inr (S_space, tok, quoted, cs)
         else read_token_loop S_space tok quoted esc cs)
      else if c = CHR ''#'' then read_token_loop S_space tok quoted esc (readline cs)
      else if c = backslash then read_token_loop (S_escape c) tok quoted S_word cs
      else if c = squote \<or> c = dquote then read_token_loop (S_quote c) tok quoted esc cs
      else read_token_loop S_word [c] quoted esc cs)"
proof -
  have "c = squote \<or> c = dquote \<Longrightarrow> c \<notin> set wordchars"
    by (auto simp: wordchars_def)
  then show ?thesis
    by (auto simp: read_token_loop.simps(3) in_commenters in_escape in_quotes)
qed

lemma loop_word_step:
  "read_token_loop S_word tok quoted esc (c # cs) =
     (if c \<in> set whitespace then
        (if tok \<noteq> [] \<or> quoted then Inr (S_space, tok, quoted, cs)
         else read_token_loop S_space tok quoted esc cs)
      else if c = CHR ''#'' then
        (if tok \<noteq> [] \<or> quoted then Inr (S_space, tok, quoted, readline cs)
         else read_token_loop S_space tok quoted esc (readline cs))
      else if c = squote \<or> c = dquote then read_token_loop (S_quote c) tok quoted esc cs
      else if c = backslash then read_token_loop (S_escape c) tok quoted S_word cs
      else read_token_loop S_word (tok @ [c]) quoted esc cs)"
  by (simp add: read_token_loop.simps(9) in_commenters in_escape in_quotes)

lemma loop_quote_step:
  "read_token_loop (S_quote q) tok quoted esc (c # cs) =
     (if c = q then read_token_loop S_word tok True esc cs
      else if c = backslash \<and> q = dquote then read_token_loop (S_escape c) tok True (S_quote q) cs
      else read_token_loop (S_quote q) (tok @ [c]) True esc cs)"
  by (simp add: read_token_loop.simps(5) in_escape in_escapedquotes)

text \<open>The property carried through the loop.\<close>

definition loop_inv :: "qmode \<Rightarrow> string \<Rightarrow> lstate \<times> string \<times> bool \<times> string \<Rightarrow> bool" where
  "loop_inv m inp r =
     (case r of (st', tok', quoted', inp') \<Rightarrow>
        open_quote (scan_quotes m inp) = open_quote (scan_quotes Outside inp') \<and>
        (st' = S_eof \<or> st' = S_space) \<and>
        (st' = S_eof \<longrightarrow> inp' = []) \<and> (tok' = [] \<and> \<not> quoted' \<longrightarrow> inp' = []))"

lemma loop_scan:
  "read_token_loop st tok quoted esc inp = Inr r \<Longrightarrow>
   (st = S_eof \<longrightarrow> inp = []) \<Longrightarrow> esc_ok st esc \<Longrightarrow> loop_inv (mode_of st esc) inp r"
proof (induction st tok quoted esc inp rule: read_token_loop.induct)
  case (1 tok quoted esc inp)
  then show ?case by (auto simp: loop_inv_def)
next
  case (2 tok quoted esc)
  then show ?case by (auto simp: loop_inv_def)
next
  case (3 tok quoted esc c cs)
  note res = "3.prems"(1) [unfolded loop_space_step]
  show ?case
  proof (cases "c \<in> set whitespace")
    case ws: True
    show ?thesis
    proof (cases "tok \<noteq> [] \<or> quoted")
      case True
      with ws res have "r = (S_space, tok, quoted, cs)" by simp
      with True ws show ?thesis by (auto simp: loop_inv_def scan_whitespace simp del: scan_quotes.simps)
    next
      case False
      with ws res have "read_token_loop S_space tok quoted esc cs = Inr r" by simp
      from "3.IH"(1) [OF ws False this] have "loop_inv Outside cs r" by simp
      then show ?thesis by (simp add: loop_inv_def scan_whitespace [OF ws] del: scan_quotes.simps)
    qed
  next
    case ws: False
    show ?thesis
    proof (cases "c = CHR ''#''")
      case True
      then have cm: "c \<in> set commenters" by (simp add: in_commenters)
      from ws True res have "read_token_loop S_space tok quoted esc (readline cs) = Inr r" by simp
      from "3.IH"(2) [OF ws cm this] have "loop_inv Outside (readline cs) r" by simp
      then show ?thesis by (simp add: loop_inv_def True scan_comment_readline)
    next
      case nc: False
      then have cm: "c \<notin> set commenters" by (simp add: in_commenters)
      show ?thesis
      proof (cases "c = backslash")
        case True
        then have es: "c \<in> set escape" by (simp add: in_escape)
        from ws nc True res have "read_token_loop (S_escape c) tok quoted S_word cs = Inr r" by simp
        from "3.IH"(3) [OF ws cm es this] have "loop_inv Escaped_outside cs r" by simp
        then show ?thesis by (simp add: loop_inv_def True)
      next
        case ne: False
        then have es: "c \<notin> set escape" by (simp add: in_escape)
        show ?thesis
        proof (cases "c = squote \<or> c = dquote")
          case True
          then have wc: "c \<notin> set wordchars" by (auto simp: wordchars_def)
          from True have qu: "c \<in> set quotes" by (simp add: in_quotes)
          from ws nc ne True res have "read_token_loop (S_quote c) tok quoted esc cs = Inr r" by simp
          from "3.IH"(5) [OF ws cm es wc qu this] have "loop_inv (In_quote c) cs r" by simp
          with True nc ne show ?thesis by (auto simp: loop_inv_def)
        next
          case False
          then have qu: "c \<notin> set quotes" by (simp add: in_quotes)
          from ws nc ne False res have rec: "read_token_loop S_word [c] quoted esc cs = Inr r" by simp
          have "loop_inv Outside cs r"
          proof (cases "c \<in> set wordchars")
            case True
            from "3.IH"(4) [OF ws cm es True rec] show ?thesis by simp
          next
            case wc: False
            from "3.IH"(6) [OF ws cm es wc qu rec] show ?thesis by simp
          qed
          with False nc ne show ?thesis by (simp add: loop_inv_def)
        qed
      qed
    qed
  qed
next
  case (4 q tok quoted esc)
  then show ?case by simp
next
  case (5 q tok quoted esc c cs)
  note res = "5.prems"(1) [unfolded loop_quote_step]
  show ?case
  proof (cases "c = q")
    case True
    with res have "read_token_loop S_word tok True esc cs = Inr r" by simp
    from "5.IH"(1) [OF True this] have "loop_inv Outside cs r" by simp
    with True show ?thesis by (simp add: loop_inv_def)
  next
    case nq: False
    show ?thesis
    proof (cases "c = backslash \<and> q = dquote")
      case True
      then have e: "c \<in> set escape \<and> q \<in> set escapedquotes"
        by (simp add: in_escape in_escapedquotes)
      from nq True res have "read_token_loop (S_escape c) tok True (S_quote q) cs = Inr r" by simp
      from "5.IH"(2) [OF nq e this] have "loop_inv (Escaped_in q) cs r" by simp
      with nq True show ?thesis by (simp add: loop_inv_def)
    next
      case False
      then have e: "\<not> (c \<in> set escape \<and> q \<in> set escapedquotes)"
        by (simp add: in_escape in_escapedquotes)
      from nq False res have "read_token_loop (S_quote q) (tok @ [c]) True esc cs = Inr r"
        by (simp split: if_splits)
      from "5.IH"(3) [OF nq e this] have "loop_inv (In_quote q) cs r" by simp
      with nq False show ?thesis by (auto simp: loop_inv_def)
    qed
  qed
next
  case (6 e tok quoted esc)
  then show ?case by simp
next
  case (7 e tok quoted esc c cs)
  note res = "7.prems"(1) [unfolded read_token_loop.simps(7)]
  from "7.prems"(3) have "esc = S_word \<or> (\<exists>q. esc = S_quote q)" by simp
  then show ?case
  proof
    assume w: "esc = S_word"
    from "7.IH" [OF res] w have "loop_inv Outside cs r" by simp
    with w show ?thesis by (simp add: loop_inv_def)
  next
    assume "\<exists>q. esc = S_quote q"
    then obtain q where q: "esc = S_quote q" ..
    from "7.IH" [OF res] q have "loop_inv (In_quote q) cs r" by simp
    with q show ?thesis by (simp add: loop_inv_def)
  qed
next
  case (8 tok quoted esc)
  then show ?case by (auto simp: loop_inv_def)
next
  case (9 tok quoted esc c cs)
  note res = "9.prems"(1) [unfolded loop_word_step]
  show ?case
  proof (cases "c \<in> set whitespace")
    case ws: True
    show ?thesis
    proof (cases "tok \<noteq> [] \<or> quoted")
      case True
      with ws res have "r = (S_space, tok, quoted, cs)" by simp
      with True ws show ?thesis by (auto simp: loop_inv_def scan_whitespace simp del: scan_quotes.simps)
    next
      case False
      with ws res have "read_token_loop S_space tok quoted esc cs = Inr r" by simp
      from "9.IH"(1) [OF ws False this] have "loop_inv Outside cs r" by simp
      then show ?thesis by (simp add: loop_inv_def scan_whitespace [OF ws] del: scan_quotes.simps)
    qed
  next
    case ws: False
    show ?thesis
    proof (cases "c = CHR ''#''")
      case True
      then have cm: "c \<in> set commenters" by (simp add: in_commenters)
      show ?thesis
      proof (cases "tok \<noteq> [] \<or> quoted")
        case tq: True
        with ws True res have "r = (S_space, tok, quoted, readline cs)" by simp
        with tq True show ?thesis by (auto simp: loop_inv_def scan_comment_readline)
      next
        case False
        with ws True res have "read_token_loop S_space tok quoted esc (readline cs) = Inr r" by simp
        from "9.IH"(2) [OF ws cm False this] have "loop_inv Outside (readline cs) r" by simp
        then show ?thesis by (simp add: loop_inv_def True scan_comment_readline)
      qed
    next
      case nc: False
      then have cm: "c \<notin> set commenters" by (simp add: in_commenters)
      show ?thesis
      proof (cases "c = squote \<or> c = dquote")
        case True
        then have qu: "c \<in> set quotes" by (simp add: in_quotes)
        from ws nc True res have "read_token_loop (S_quote c) tok quoted esc cs = Inr r" by simp
        from "9.IH"(3) [OF ws cm qu this] have "loop_inv (In_quote c) cs r" by simp
        with True nc show ?thesis by (auto simp: loop_inv_def)
      next
        case nq: False
        then have qu: "c \<notin> set quotes" by (simp add: in_quotes)
        show ?thesis
        proof (cases "c = backslash")
          case True
          then have es: "c \<in> set escape" by (simp add: in_escape)
          from ws nc nq True res have "read_token_loop (S_escape c) tok quoted S_word cs = Inr r" by simp
          from "9.IH"(4) [OF ws cm qu es this] have "loop_inv Escaped_outside cs r" by simp
          then show ?thesis by (simp add: loop_inv_def True)
        next
          case False
          then have es: "c \<notin> set escape" by (simp add: in_escape)
          from ws nc nq False res have "read_token_loop S_word (tok @ [c]) quoted esc cs = Inr r" by simp
          from "9.IH"(5) [OF ws cm qu es this] have "loop_inv Outside cs r" by simp
          with nc nq False show ?thesis by (simp add: loop_inv_def)
        qed
      qed
    qed
  qed
qed

lemma lexer_list_closed:
  "lexer_list lx = Inr ts \<Longrightarrow> state lx = S_eof \<or> state lx = S_space \<Longrightarrow>
   (state lx = S_eof \<longrightarrow> instream lx = []) \<Longrightarrow>
   \<not> open_quote (scan_quotes Outside (instream lx))"
proof (induction lx arbitrary: ts rule: lexer_list.induct)
  case (1 lx)
  from "1.prems"(1) obtain r where
    loop: "read_token_loop (state lx) (token lx) False S_space (instream lx) = Inr r"
    by (auto simp: lexer_list.simps [of lx] read_token_def split: sum.splits)
  obtain st' tok' quoted' inp' where r: "r = (st', tok', quoted', inp')"
    by (cases r) auto
  from "1.prems"(2) have ok: "esc_ok (state lx) S_space" and m: "mode_of (state lx) S_space = Outside"
    by auto
  from loop_scan [OF loop "1.prems"(3) ok]
  have inv: "open_quote (scan_quotes Outside (instream lx)) = open_quote (scan_quotes Outside inp')"
    and st': "st' = S_eof \<or> st' = S_space" and eof: "st' = S_eof \<longrightarrow> inp' = []"
    and emp: "tok' = [] \<and> \<not> quoted' \<longrightarrow> inp' = []"
    by (simp_all add: loop_inv_def r m)
  show ?case
  proof (cases "\<not> quoted' \<and> tok' = []")
    case True
    with emp have "inp' = []" by simp
    with inv show ?thesis by simp
  next
    case False
    let ?lx' = "\<lparr>instream = inp', state = st', token = []\<rparr>"
    from False loop r have rt: "read_token lx = Inr (Some tok', ?lx')"
      by (simp add: read_token_def)
    with "1.prems"(1) obtain ts' where "lexer_list ?lx' = Inr ts'"
      by (auto simp: lexer_list.simps [of lx] split: sum.splits)
    from "1.IH" [OF rt refl refl this] st' eof
    have "\<not> open_quote (scan_quotes Outside inp')" by simp
    with inv show ?thesis by simp
  qed
qed

lemma shlex_split_unterminated:
  assumes "unterminated_quote s"
  shows "\<exists>e. shlex_split s = Inl e"
proof (cases "shlex_split s")
  case (Inl e)
  then show ?thesis by blast
next
  case (Inr ts)
  then have "lexer_list (shlex s) = Inr ts" by (simp add: shlex_split_def)
  from lexer_list_closed [OF this] have "\<not> open_quote (scan_quotes Outside s)"
    by (simp add: shlex_def)
  with assms show ?thesis by (simp add: unterminated_quote_def)
qed

section \<open>Strings that split into themselves\<close>

text \<open>
  A call of the loop that returns never has more characters in the token and the rest of
  the input than it started with, and one fewer when it starts inside quotes: the closing
  quote is dropped.
\<close>

fun quote_debt :: "lstate \<Rightarrow> nat" where
  "quote_debt (S_quote q) = 1"
| "quote_debt st = 0"

lemma loop_length:
  "read_token_loop st tok quoted esc inp = Inr (st', tok', quoted', inp') \<Longrightarrow>
   length tok' + length inp' + quote_debt st \<le> length tok + length inp"
proof (induction st tok quoted esc inp rule: read_token_loop.induct)
  case (1 tok quoted esc inp)
  then show ?case by auto
next
  case (2 tok quoted esc)
  then show ?case by auto
next
  case (3 tok quoted esc c cs)
  have r: "length (readline cs) \<le> length cs" by (rule length_readline_le)
  show ?case
    using 3 r by (simp add: read_token_loop.simps(3) split: if_splits)
next
  case (4 q tok quoted esc)
  then show ?case by simp
next
  case (5 q tok quoted esc c cs)
  then show ?case by (simp add: read_token_loop.simps(5) split: if_splits)
next
  case (6 e tok quoted esc)
  then show ?case by simp
next
  case (7 e tok quoted esc c cs)
  show ?case
  proof (cases esc)
    case (S_quote q)
    with 7 show ?thesis by (simp add: read_token_loop.simps(7) split: if_splits)
  qed (use 7 in \<open>simp_all add: read_token_loop.simps(7)\<close>)
next
  case (8 tok quoted esc)
  then show ?case by auto
next
  case (9 tok quoted esc c cs)
  have r: "length (readline cs) \<le> length cs" by (rule length_readline_le)
  show ?case
    using 9 r by (simp add: read_token_loop.simps(9) split: if_splits)
qed

text \<open>
  When a call that starts outside quotes uses the input up and no character is lost, every
  character of the input was a plain one.
\<close>

lemma is_plain_iff:
  "is_plain c \<longleftrightarrow> c \<notin> set whitespace \<and> c \<noteq> CHR ''#'' \<and> \<not> (c = squote \<or> c = dquote) \<and> c \<noteq> backslash"
  by (simp add: is_plain_def in_commenters in_quotes in_escape)

lemma loop_all_copied:
  "read_token_loop st tok quoted esc inp = Inr (st', tok', quoted', []) \<Longrightarrow>
   st = S_space \<or> st = S_word \<Longrightarrow> length tok + length inp \<le> length tok' \<Longrightarrow>
   list_all is_plain inp"
proof (induction st tok quoted esc inp rule: read_token_loop.induct)
  case (3 tok quoted esc c cs)
  note res = "3.prems"(1) [unfolded loop_space_step]
  note len = "3.prems"(3)
  have r: "length (readline cs) \<le> length cs" by (rule length_readline_le)
  show ?case
  proof (cases "is_plain c")
    case True
    then have p: "c \<notin> set whitespace" "c \<noteq> CHR ''#''" "\<not> (c = squote \<or> c = dquote)" "c \<noteq> backslash"
      by (simp_all add: is_plain_iff)
    with res have rec: "read_token_loop S_word [c] quoted esc cs = Inr (st', tok', quoted', [])" by simp
    from len have len': "length [c] + length cs \<le> length tok'" by simp
    from p have cm: "c \<notin> set commenters" and es: "c \<notin> set escape" and qu: "c \<notin> set quotes"
      by (simp_all add: in_commenters in_escape in_quotes)
    have "list_all is_plain cs"
    proof (cases "c \<in> set wordchars")
      case True
      from "3.IH"(4) [OF p(1) cm es True rec _ len'] show ?thesis by simp
    next
      case False
      from "3.IH"(6) [OF p(1) cm es False qu rec _ len'] show ?thesis by simp
    qed
    with True show ?thesis by simp
  next
    case False
    have "length tok' + 1 \<le> length tok + length (c # cs)"
    proof (cases "c \<in> set whitespace")
      case ws: True
      show ?thesis
      proof (cases "tok \<noteq> [] \<or> quoted")
        case True
        with ws res show ?thesis by simp
      next
        case False
        with ws res have "read_token_loop S_space tok quoted esc cs = Inr (st', tok', quoted', [])" by simp
        from loop_length [OF this] show ?thesis by simp
      qed
    next
      case ws: False
      show ?thesis
      proof (cases "c = CHR ''#''")
        case True
        with ws res have "read_token_loop S_space tok quoted esc (readline cs) = Inr (st', tok', quoted', [])"
          by simp
        from loop_length [OF this] r show ?thesis by simp
      next
        case nc: False
        show ?thesis
        proof (cases "c = backslash")
          case True
          with ws nc res have "read_token_loop (S_escape c) tok quoted S_word cs = Inr (st', tok', quoted', [])"
            by simp
          from loop_length [OF this] show ?thesis by simp
        next
          case ne: False
          with False ws nc have q: "c = squote \<or> c = dquote" by (simp add: is_plain_iff)
          with ws nc ne res have "read_token_loop (S_quote c) tok quoted esc cs = Inr (st', tok', quoted', [])"
            by simp
          from loop_length [OF this] show ?thesis by simp
        qed
      qed
    qed
    with len show ?thesis by simp
  qed
next
  case (9 tok quoted esc c cs)
  note res = "9.prems"(1) [unfolded loop_word_step]
  note len = "9.prems"(3)
  have r: "length (readline cs) \<le> length cs" by (rule length_readline_le)
  show ?case
  proof (cases "is_plain c")
    case True
    then have p: "c \<notin> set whitespace" "c \<noteq> CHR ''#''" "\<not> (c = squote \<or> c = dquote)" "c \<noteq> backslash"
      by (simp_all add: is_plain_iff)
    with res have rec: "read_token_loop S_word (tok @ [c]) quoted esc cs = Inr (st', tok', quoted', [])" by simp
    from len have len': "length (tok @ [c]) + length cs \<le> length tok'" by simp
    from p have cm: "c \<notin> set commenters" and es: "c \<notin> set escape" and qu: "c \<notin> set quotes"
      by (simp_all add: in_commenters in_escape in_quotes)
    from "9.IH"(5) [OF p(1) cm qu es rec _ len'] have "list_all is_plain cs" by simp
    with True show ?thesis by simp
  next
    case False
    have "length tok' + 1 \<le> length tok + length (c # cs)"
    proof (cases "c \<in> set whitespace")
      case ws: True
      show ?thesis
      proof (cases "tok \<noteq> [] \<or> quoted")
        case True
        with ws res show ?thesis by simp
      next
        case False
        with ws res have "read_token_loop S_space tok quoted esc cs = Inr (st', tok', quoted', [])" by simp
        from loop_length [OF this] show ?thesis by simp
      qed
    next
      case ws: False
      show ?thesis
      proof (cases "c = CHR ''#''")
        case True
        show ?thesis
        proof (cases "tok \<noteq> [] \<or> quoted")
          case tq: True
          with ws True res show ?thesis by simp
        next
          case False
          with ws True res
          have "read_token_loop S_space tok quoted esc (readline cs) = Inr (st', tok', quoted', [])"
            by simp
          from loop_length [OF this] r show ?thesis by simp
        qed
      next
        case nc: False
        show ?thesis
        proof (cases "c = squote \<or> c = dquote")
          case True
          with ws nc res have "read_token_loop (S_quote c) tok quoted esc cs = Inr (st', tok', quoted', [])"
            by simp
          from loop_length [OF this] show ?thesis by simp
        next
          case nq: False
          with False ws nc have e: "c = backslash" by (simp add: is_plain_iff)
          with ws nc nq res have "read_token_loop (S_escape c) tok quoted S_word cs = Inr (st', tok', quoted', [])"
            by simp
          from loop_length [OF this] show ?thesis by simp
        qed
      qed
    qed
    with len show ?thesis by simp
  qed
qed simp_all

lemma shlex_split_fixed_point:
  assumes "shlex_split tok = Inr [tok]"
  shows "tok \<noteq> [] \<and> list_all is_plain tok"
proof -
  let ?lx = "\<lparr>instream = tok, state = S_space, token = []\<rparr>"
  from assms have ll: "lexer_list ?lx = Inr [tok]" by (simp add: shlex_split_def shlex_def)
  show ?thesis
  proof (cases "read_token_loop S_space [] False S_space tok")
    case (Inl e)
    with ll show ?thesis by (simp add: lexer_list.simps [of ?lx] read_token_def)
  next
    case (Inr r)
    obtain st' tok' quoted' inp' where r: "r = (st', tok', quoted', inp')" by (cases r) auto
    note loop = Inr [unfolded r]
    from ll loop have some: "\<not> (\<not> quoted' \<and> tok' = [])" and tok': "tok' = tok"
      by (auto simp: lexer_list.simps [of ?lx] read_token_def split: sum.splits if_splits)
    from loop_length [OF loop] tok' have inp': "inp' = []" by simp
    from loop_all_copied [OF loop [unfolded inp']] tok' have plain: "list_all is_plain tok" by simp
    have "tok \<noteq> []"
    proof
      assume "tok = []"
      with loop some tok' show False by simp
    qed
    with plain show ?thesis by simp
  qed
qed

section \<open>Scripts written word by word\<close>

text \<open>
  The loop copies a part into the token and comes back to the word state; a quoted part
  sets \<^verbatim>\<open>quoted\<close>.  So every word of such a script is one token, its quotes removed.
\<close>

lemma loop_word_plain_run:
  "list_all is_plain s \<Longrightarrow>
   read_token_loop S_word tok quoted esc (s @ rest) = read_token_loop S_word (tok @ s) quoted esc rest"
  by (induction s arbitrary: tok) (simp_all add: loop_word_plain)

lemma loop_quote_body:
  "q \<notin> set body \<Longrightarrow> q = squote \<or> q = dquote \<and> backslash \<notin> set body \<Longrightarrow>
   read_token_loop (S_quote q) tok quoted esc (body @ q # rest) =
   read_token_loop S_word (tok @ body) True esc rest"
proof (induction body arbitrary: tok quoted)
  case Nil
  show ?case by (simp add: loop_quote_step)
next
  case (Cons c body)
  from Cons.prems have c: "c \<noteq> q" and nb: "\<not> (c = backslash \<and> q = dquote)"
    and b: "q \<notin> set body" and e: "q = squote \<or> q = dquote \<and> backslash \<notin> set body"
    by auto
  from c nb show ?case by (auto simp: loop_quote_step Cons.IH [OF b e])
qed

lemma loop_word_quote:
  "q = squote \<or> q = dquote \<Longrightarrow>
   read_token_loop S_word tok quoted esc (q # xs) = read_token_loop (S_quote q) tok quoted esc xs"
  by (auto simp: loop_word_step in_whitespace)

lemma loop_part:
  "valid_part p \<Longrightarrow>
   read_token_loop S_word tok quoted esc (part_text p @ rest) =
   read_token_loop S_word (tok @ part_value p) (quoted \<or> is_quoted p) esc rest"
proof (cases p)
  case (Bare s)
  assume "valid_part p"
  with Bare show ?thesis by (simp add: loop_word_plain_run)
next
  case (Single s)
  assume "valid_part p"
  with Single have "squote \<notin> set s" by simp
  then have "read_token_loop (S_quote squote) tok quoted esc (s @ squote # rest) =
      read_token_loop S_word (tok @ s) True esc rest"
    by (intro loop_quote_body) simp_all
  then show ?thesis by (simp add: Single loop_word_quote)
next
  case (Double s)
  assume "valid_part p"
  with Double have "dquote \<notin> set s" and "backslash \<notin> set s" by simp_all
  then have "read_token_loop (S_quote dquote) tok quoted esc (s @ dquote # rest) =
      read_token_loop S_word (tok @ s) True esc rest"
    by (intro loop_quote_body) simp_all
  then show ?thesis by (simp add: Double loop_word_quote)
qed

lemma loop_word_parts:
  "list_all valid_part w \<Longrightarrow>
   read_token_loop S_word tok quoted esc (word_text w @ rest) =
   read_token_loop S_word (tok @ word_value w) (quoted \<or> list_ex is_quoted w) esc rest"
proof (induction w arbitrary: tok quoted)
  case Nil
  show ?case by (simp add: word_text_def word_value_def)
next
  case (Cons p w)
  then have p: "valid_part p" and w: "list_all valid_part w" by simp_all
  have "read_token_loop S_word tok quoted esc (word_text (p # w) @ rest) =
        read_token_loop S_word tok quoted esc (part_text p @ (word_text w @ rest))"
    by (simp add: word_text_def)
  also have "\<dots> = read_token_loop S_word (tok @ part_value p) (quoted \<or> is_quoted p) esc (word_text w @ rest)"
    by (rule loop_part [OF p])
  also have "\<dots> = read_token_loop S_word ((tok @ part_value p) @ word_value w)
      ((quoted \<or> is_quoted p) \<or> list_ex is_quoted w) esc rest"
    by (rule Cons.IH [OF w])
  finally show ?case by (simp add: word_value_def disj_assoc)
qed

lemma loop_space_as_word:
  "read_token_loop S_space [] False esc inp = read_token_loop S_word [] False esc inp"
  by (cases inp) (simp_all add: loop_space_step loop_word_step)

lemma valid_word_token:
  assumes "valid_word w"
  shows "word_value w \<noteq> [] \<or> list_ex is_quoted w"
proof -
  from assms obtain p ps where w: "w = p # ps" and p: "valid_part p"
    by (cases w) (auto simp: valid_word_def)
  from p show ?thesis by (cases p) (simp_all add: w word_value_def)
qed

lemma read_token_last_word:
  assumes "valid_word w"
  shows "read_token \<lparr>instream = word_text w, state = S_space, token = []\<rparr> =
         Inr (Some (word_value w), \<lparr>instream = [], state = S_eof, token = []\<rparr>)"
proof -
  from assms have v: "list_all valid_part w" by (simp add: valid_word_def)
  have "read_token_loop S_space [] False S_space (word_text w @ []) =
        read_token_loop S_word ([] @ word_value w) (False \<or> list_ex is_quoted w) S_space []"
    unfolding loop_space_as_word by (rule loop_word_parts [OF v])
  then have "read_token_loop S_space [] False S_space (word_text w) =
        Inr (S_eof, word_value w, list_ex is_quoted w, [])"
    by simp
  with valid_word_token [OF assms] show ?thesis by (auto simp: read_token_def)
qed

lemma read_token_next_word:
  assumes "valid_word w"
  shows "read_token \<lparr>instream = word_text w @ CHR '' '' # rest, state = S_space, token = []\<rparr> =
         Inr (Some (word_value w), \<lparr>instream = rest, state = S_space, token = []\<rparr>)"
proof -
  from assms have v: "list_all valid_part w" by (simp add: valid_word_def)
  have "read_token_loop S_space [] False S_space (word_text w @ CHR '' '' # rest) =
        read_token_loop S_word ([] @ word_value w) (False \<or> list_ex is_quoted w) S_space (CHR '' '' # rest)"
    unfolding loop_space_as_word by (rule loop_word_parts [OF v])
  with valid_word_token [OF assms]
  have "read_token_loop S_space [] False S_space (word_text w @ CHR '' '' # rest) =
        Inr (S_space, word_value w, list_ex is_quoted w, rest)"
    by (auto simp: loop_word_step in_whitespace)
  with valid_word_token [OF assms] show ?thesis by (auto simp: read_token_def)
qed

lemma lexer_list_script_text:
  "list_all valid_word ws \<Longrightarrow>
   lexer_list \<lparr>instream = script_text ws, state = S_space, token = []\<rparr> = Inr (map word_value ws)"
proof (induction ws rule: induct_list012)
  case 1
  show ?case
    by (simp add: script_text_def lexer_list.simps [of "\<lparr>instream = [], state = S_space, token = []\<rparr>"]
                  read_token_def)
next
  case (2 w)
  then have w: "valid_word w" by simp
  show ?case
    by (simp add: script_text_def lexer_list.simps [of "\<lparr>instream = word_text w, state = S_space, token = []\<rparr>"]
                  read_token_last_word [OF w] lexer_list_eof)
next
  case (3 w w' ws)
  then have w: "valid_word w" and rest: "list_all valid_word (w' # ws)" by simp_all
  have t: "script_text (w # w' # ws) = word_text w @ CHR '' '' # script_text (w' # ws)"
    by (simp add: script_text_def)
  show ?case
    unfolding t
    by (simp add: lexer_list.simps [of "\<lparr>instream = word_text w @ CHR '' '' # script_text (w' # ws), state = S_space, token = []\<rparr>"]
                  read_token_next_word [OF w] "3.IH"(2) [OF rest])
qed

lemma shlex_split_script_text:
  "list_all valid_word ws \<Longrightarrow> shlex_split (script_text ws) = Inr (map word_value ws)"
  by (simp add: shlex_split_def shlex_def lexer_list_script_text)

section \<open>The expander, piece by piece\<close>

lemma expand_env_pieces:
  "expand_env env tok =
     (case find (\<lambda>n. env n = None) (references (pieces tok)) of
        Some n \<Rightarrow> Inl (missing n)
      | None \<Rightarrow> Inr (substitute env (pieces tok)))"
proof (induction env tok rule: expand_env.induct)
  case (1 env)
  show ?case by simp
next
  case (2 env c cs)
  show ?case
  proof (cases "ENV_VAR_PATTERN (c # cs)")
    case None
    then show ?thesis
      by (simp add: "2.IH"(1) [OF None] expand_env.simps(2) pieces.simps(2) split: option.splits)
  next
    case (Some m)
    obtain name rest where m: "m = (name, rest)" by (cases m) auto
    show ?thesis
    proof (cases "env name")
      case None
      with Some m show ?thesis
        by (simp add: expand_env.simps(2) pieces.simps(2) replace_def missing_def)
    next
      case (Some v)
      then have r: "replace env name = Inr v" by (simp add: replace_def)
      note ih = "2.IH"(2) [OF \<open>ENV_VAR_PATTERN (c # cs) = Some m\<close> m [symmetric] r]
      from Some m \<open>ENV_VAR_PATTERN (c # cs) = Some m\<close> show ?thesis
        by (simp add: ih expand_env.simps(2) pieces.simps(2) r split: option.splits)
    qed
  qed
qed

lemma find_append_case:
  "find P (xs @ ys) = (case find P xs of Some x \<Rightarrow> Some x | None \<Rightarrow> find P ys)"
  by (induction xs) simp_all

lemma expand_tokens_pieces:
  "expand_tokens env toks =
     (case find (\<lambda>n. env n = None) (concat (map (\<lambda>t. references (pieces t)) toks)) of
        Some n \<Rightarrow> Inl (missing n)
      | None \<Rightarrow> Inr (map (\<lambda>t. substitute env (pieces t)) toks))"
proof (induction toks)
  case Nil
  show ?case by simp
next
  case (Cons tok toks)
  show ?case
    by (simp add: Cons.IH expand_env_pieces find_append_case split: option.splits)
qed

lemma expand_tokens_all2:
  "expand_tokens env toks = Inr toks' \<Longrightarrow>
   list_all2 (\<lambda>t t'. expand_env env t = Inr t') toks toks'"
proof (induction toks arbitrary: toks')
  case Nil
  then show ?case by simp
next
  case (Cons tok toks)
  then show ?case by (auto split: sum.splits)
qed

lemma word_char_not_brace: "\<not> is_word_char (CHR ''{'')"
  by (simp add: is_word_char_def)

lemma word_char_not_squote: "is_word_char c \<Longrightarrow> c \<noteq> squote"
  by (auto simp: is_word_char_def)

lemma takeWhile_run:
  "list_all P xs \<Longrightarrow> rest = [] \<or> \<not> P (hd rest) \<Longrightarrow>
   takeWhile P (xs @ rest) = xs \<and> dropWhile P (xs @ rest) = rest"
proof (induction xs)
  case Nil
  then show ?case by (cases rest) auto
next
  case (Cons x xs)
  then show ?case by simp
qed

lemma ENV_VAR_PATTERN_bare:
  assumes "name \<noteq> []" and "list_all is_word_char name"
    and "rest = [] \<or> \<not> is_word_char (hd rest)"
  shows "ENV_VAR_PATTERN (CHR ''$'' # name @ rest) = Some (name, rest)"
  using assms takeWhile_run [OF assms(2,3)]
  by (simp add: ENV_VAR_PATTERN_def match_bare_def)

lemma ENV_VAR_PATTERN_braced:
  assumes "name \<noteq> []" and "CHR ''}'' \<notin> set name"
  shows "ENV_VAR_PATTERN (CHR ''$'' # CHR ''{'' # name @ CHR ''}'' # rest) = Some (name, rest)"
proof -
  have "list_all (\<lambda>c. c \<noteq> CHR ''}'') name" using assms(2) by (auto simp: list_all_iff)
  from takeWhile_run [OF this, of "CHR ''}'' # rest"]
  have t: "takeWhile (\<lambda>c. c \<noteq> CHR ''}'') (name @ CHR ''}'' # rest) = name"
    and d: "dropWhile (\<lambda>c. c \<noteq> CHR ''}'') (name @ CHR ''}'' # rest) = CHR ''}'' # rest"
    by simp_all
  have "match_bare (CHR ''$'' # CHR ''{'' # name @ CHR ''}'' # rest) = None"
    by (simp add: match_bare_def word_char_not_brace)
  then show ?thesis
    using assms(1) by (simp add: ENV_VAR_PATTERN_def match_braced_def t d)
qed

lemma ENV_VAR_PATTERN_other: "c \<noteq> CHR ''$'' \<Longrightarrow> ENV_VAR_PATTERN (c # cs) = None"
  by (simp add: ENV_VAR_PATTERN_def match_bare_def match_braced_def split: list.splits)

lemma pieces_text:
  "CHR ''$'' \<notin> set pre \<Longrightarrow> pieces (pre @ rest) = map Text pre @ pieces rest"
proof (induction pre)
  case Nil
  show ?case by simp
next
  case (Cons c pre)
  then have "c \<noteq> CHR ''$''" and "CHR ''$'' \<notin> set pre" by auto
  with Cons.IH show ?case by (simp add: pieces.simps(2) ENV_VAR_PATTERN_other)
qed

lemma pieces_bare:
  "name \<noteq> [] \<Longrightarrow> list_all is_word_char name \<Longrightarrow> rest = [] \<or> \<not> is_word_char (hd rest) \<Longrightarrow>
   pieces (CHR ''$'' # name @ rest) = Reference name # pieces rest"
  by (simp add: pieces.simps(2) ENV_VAR_PATTERN_bare)

lemma pieces_braced:
  "name \<noteq> [] \<Longrightarrow> CHR ''}'' \<notin> set name \<Longrightarrow>
   pieces (CHR ''$'' # CHR ''{'' # name @ CHR ''}'' # rest) = Reference name # pieces rest"
  by (simp add: pieces.simps(2) ENV_VAR_PATTERN_braced)

section \<open>The invoker\<close>

lemma exit_status_byte: "0 \<le> n \<Longrightarrow> n \<le> 255 \<Longrightarrow> exit_status n = n"
  by (simp add: exit_status_def)

lemma exit_status_1 [simp]: "exit_status 1 = 1"
  by (simp add: exit_status_def)

lemma main_invokes:
  assumes "read_text w (ptb_path a) = Inr src"
    and "script_tokens (environ w) src = Inr tokens"
    and "tokens \<noteq> []"
  shows "main w a =
     ([Stdout (''Executing: '' @ shlex_join ([''sui'', ''client'', ''ptb''] @ extra a @ tokens)),
       Run ([''sui'', ''client'', ''ptb''] @ extra a @ tokens)],
      run_checked w ([''sui'', ''client'', ''ptb''] @ extra a @ tokens))"
  using assms by (simp add: main_def Let_def)

lemma invocations_append: "invocations (xs @ ys) = invocations xs @ invocations ys"
  by (induction xs rule: invocations.induct) simp_all

lemma invocations_Stderr: "invocations (map Stderr ls) = []"
  by (induction ls) simp_all

lemma invocations_script:
  "invocations (fst (script w a)) = invocations (fst (main w a))"
proof (cases "main w a")
  case (Pair evs r)
  show ?thesis
  proof (cases r)
    case (Inl e)
    with Pair show ?thesis
      by (cases e) (simp_all add: script_def invocations_append)
  next
    case (Inr code)
    with Pair show ?thesis by (simp add: script_def)
  qed
qed

lemma script_invocations:
  assumes "read_text w (ptb_path a) = Inr src"
    and "script_tokens (environ w) src = Inr tokens"
    and "tokens \<noteq> []"
  shows "invocations (fst (script w a)) = [[''sui'', ''client'', ''ptb''] @ extra a @ tokens]"
  unfolding invocations_script main_invokes [OF assms] by simp

text \<open>
  C2.  When the script is read and its expanded token list is not empty, the run hands
  exactly one command to the operating system, and its argument vector is the tool name and
  the two fixed subcommand names, then the pass-through arguments in the order supplied,
  then the expanded script tokens in script order.
\<close>

theorem argument_vector:
  assumes "read_text w (ptb_path a) = Inr src"
    and "script_tokens (environ w) src = Inr tokens"
    and "tokens \<noteq> []"
  shows "invocations (fst (script w a)) = [[''sui'', ''client'', ''ptb''] @ extra a @ tokens]"
  using assms by (rule script_invocations)

lemma demo_tokens_a_b: "script_tokens Map.empty ''a b'' = Inr [''a'', ''b'']"
  by code_simp

theorem argument_vector_witness:
  "read_text (demo_world ''a b'' Map.empty (Exited 0)) (ptb_path demo_args) = Inr ''a b'' \<and>
   script_tokens (environ (demo_world ''a b'' Map.empty (Exited 0))) ''a b'' = Inr [''a'', ''b''] \<and>
   [''a'', ''b''] \<noteq> [] \<and>
   invocations (fst (script (demo_world ''a b'' Map.empty (Exited 0)) demo_args)) =
     [[''sui'', ''client'', ''ptb'', ''--dry-run'', ''a'', ''b'']]"
proof -
  have r: "read_text (demo_world ''a b'' Map.empty (Exited 0)) (ptb_path demo_args) = Inr ''a b''"
    by (simp add: demo_world_def)
  have t: "script_tokens (environ (demo_world ''a b'' Map.empty (Exited 0))) ''a b'' = Inr [''a'', ''b'']"
    by (simp add: demo_world_def demo_tokens_a_b)
  have n: "[''a'', ''b''] \<noteq> ([] :: string list)" by simp
  from argument_vector [OF r t n] r t show ?thesis by (simp add: demo_args_def)
qed

text \<open>
  C3.  When the external tool runs to completion, that is, ends with an exit code from 0
  to 255, the exit code of the program is that code: 0 for 0, and the tool's own code
  otherwise.  (A child ended by a signal has a negative return code; the program then ends
  with that number's low eight bits.)
\<close>

theorem exit_code_is_tool_exit_code:
  assumes "read_text w (ptb_path a) = Inr src"
    and "script_tokens (environ w) src = Inr tokens"
    and "tokens \<noteq> []"
    and "spawn w ([''sui'', ''client'', ''ptb''] @ extra a @ tokens) = Exited rc"
    and "0 \<le> rc" and "rc \<le> 255"
  shows "snd (script w a) = rc"
  using assms(4) exit_status_byte [OF assms(5,6)]
  by (auto simp: script_def main_invokes [OF assms(1-3)] run_checked_def)

theorem exit_code_is_tool_exit_code_witness:
  "read_text (demo_world ''a b'' Map.empty (Exited 3)) (ptb_path demo_args) = Inr ''a b'' \<and>
   script_tokens (environ (demo_world ''a b'' Map.empty (Exited 3))) ''a b'' = Inr [''a'', ''b''] \<and>
   spawn (demo_world ''a b'' Map.empty (Exited 3))
     ([''sui'', ''client'', ''ptb''] @ extra demo_args @ [''a'', ''b'']) = Exited 3 \<and>
   (0::int) \<le> 3 \<and> (3::int) \<le> 255 \<and>
   snd (script (demo_world ''a b'' Map.empty (Exited 3)) demo_args) = 3"
proof -
  have r: "read_text (demo_world ''a b'' Map.empty (Exited 3)) (ptb_path demo_args) = Inr ''a b''"
    by (simp add: demo_world_def)
  have t: "script_tokens (environ (demo_world ''a b'' Map.empty (Exited 3))) ''a b'' = Inr [''a'', ''b'']"
    by (simp add: demo_world_def demo_tokens_a_b)
  have n: "[''a'', ''b''] \<noteq> ([] :: string list)" by simp
  have c: "spawn (demo_world ''a b'' Map.empty (Exited 3))
     ([''sui'', ''client'', ''ptb''] @ extra demo_args @ [''a'', ''b'']) = Exited 3"
    by (simp add: demo_world_def)
  have lo: "(0::int) \<le> 3" and hi: "(3::int) \<le> 255" by simp_all
  from exit_code_is_tool_exit_code [OF r t n c lo hi] r t c show ?thesis by simp
qed

text \<open>
  C7.  When the external tool cannot be started, the \<^verbatim>\<open>OSError\<close> of \<^verbatim>\<open>subprocess.run\<close> is
  caught nowhere: the interpreter writes its traceback on standard error, last of all, and
  the exit code is 1, which is not the 0 of a clean run.
\<close>

theorem launch_failure_exit:
  assumes "read_text w (ptb_path a) = Inr src"
    and "script_tokens (environ w) src = Inr tokens"
    and "tokens \<noteq> []"
    and "spawn w ([''sui'', ''client'', ''ptb''] @ extra a @ tokens) = Not_started"
  shows "snd (script w a) = 1 \<and> snd (script w a) \<noteq> 0 \<and>
         last (fst (script w a)) = Traceback OSError"
  using assms(4) by (simp add: script_def main_invokes [OF assms(1-3)] run_checked_def)

theorem launch_failure_exit_witness:
  "read_text (demo_world ''a b'' Map.empty Not_started) (ptb_path demo_args) = Inr ''a b'' \<and>
   script_tokens (environ (demo_world ''a b'' Map.empty Not_started)) ''a b'' = Inr [''a'', ''b''] \<and>
   spawn (demo_world ''a b'' Map.empty Not_started)
     ([''sui'', ''client'', ''ptb''] @ extra demo_args @ [''a'', ''b'']) = Not_started \<and>
   snd (script (demo_world ''a b'' Map.empty Not_started) demo_args) = 1 \<and>
   last (fst (script (demo_world ''a b'' Map.empty Not_started) demo_args)) = Traceback OSError"
proof -
  have r: "read_text (demo_world ''a b'' Map.empty Not_started) (ptb_path demo_args) = Inr ''a b''"
    by (simp add: demo_world_def)
  have t: "script_tokens (environ (demo_world ''a b'' Map.empty Not_started)) ''a b'' = Inr [''a'', ''b'']"
    by (simp add: demo_world_def demo_tokens_a_b)
  have n: "[''a'', ''b''] \<noteq> ([] :: string list)" by simp
  have c: "spawn (demo_world ''a b'' Map.empty Not_started)
     ([''sui'', ''client'', ''ptb''] @ extra demo_args @ [''a'', ''b'']) = Not_started"
    by (simp add: demo_world_def)
  from launch_failure_exit [OF r t n c] r t c show ?thesis by simp
qed

section \<open>Tokenizing a script\<close>

text \<open>
  C4.  A script of comments and whitespace only (whitespace being the tokenizer's: space,
  tab, carriage return, line feed) has no tokens; the run prints one line on standard
  error, ends with exit code 1 and hands no command to the operating system.
\<close>

theorem empty_script_exit:
  assumes "only_comments_and_whitespace src"
    and "read_text w (ptb_path a) = Inr src"
  shows "shlex_split src = Inr [] \<and>
         script w a = ([Stderr (''No PTB commands found in '' @ ptb_path a)], 1) \<and>
         invocations (fst (script w a)) = []"
proof -
  have s: "shlex_split src = Inr []" by (rule shlex_split_blank [OF assms(1)])
  then have "script_tokens (environ w) src = Inr []" by (simp add: script_tokens_def)
  with assms(2) have "script w a = ([Stderr (''No PTB commands found in '' @ ptb_path a)], 1)"
    by (simp add: script_def main_def)
  with s show ?thesis by simp
qed

theorem empty_script_exit_witness:
  "only_comments_and_whitespace comment_script \<and>
   read_text (demo_world comment_script Map.empty (Exited 0)) (ptb_path demo_args) = Inr comment_script \<and>
   shlex_split comment_script = Inr [] \<and>
   script (demo_world comment_script Map.empty (Exited 0)) demo_args =
     ([Stderr ''No PTB commands found in demo.ptb''], 1) \<and>
   invocations (fst (script (demo_world comment_script Map.empty (Exited 0)) demo_args)) = []"
proof -
  have b: "only_comments_and_whitespace comment_script"
    by (simp add: only_comments_and_whitespace_def comment_script_def whitespace_def)
  have r: "read_text (demo_world comment_script Map.empty (Exited 0)) (ptb_path demo_args) = Inr comment_script"
    by (simp add: demo_world_def)
  from empty_script_exit [OF b r] b r show ?thesis by (simp add: demo_args_def)
qed

text \<open>
  C8.  A script that ends inside a single- or double-quoted part does not tokenize: the
  split raises a \<^verbatim>\<open>ValueError\<close>, which nothing catches, so the run ends with a traceback,
  exit code 1 and no command handed to the operating system.
\<close>

theorem unterminated_quote_aborts:
  assumes "unterminated_quote src"
    and "read_text w (ptb_path a) = Inr src"
  shows "\<exists>e. shlex_split src = Inl e \<and>
             script w a = ([Traceback (ValueError e)], 1) \<and>
             invocations (fst (script w a)) = []"
proof -
  from shlex_split_unterminated [OF assms(1)] obtain e where e: "shlex_split src = Inl e" ..
  then have "script_tokens (environ w) src = Inl ([], ValueError e)"
    by (simp add: script_tokens_def)
  with assms(2) have "script w a = ([Traceback (ValueError e)], 1)"
    by (simp add: script_def main_def)
  with e show ?thesis by simp
qed

theorem unterminated_quote_aborts_witness:
  "unterminated_quote open_script \<and>
   read_text (demo_world open_script Map.empty (Exited 0)) (ptb_path demo_args) = Inr open_script \<and>
   (\<exists>e. shlex_split open_script = Inl e \<and>
        script (demo_world open_script Map.empty (Exited 0)) demo_args = ([Traceback (ValueError e)], 1) \<and>
        invocations (fst (script (demo_world open_script Map.empty (Exited 0)) demo_args)) = [])"
proof -
  have u: "unterminated_quote open_script"
    by (simp add: unterminated_quote_def open_script_def)
  have r: "read_text (demo_world open_script Map.empty (Exited 0)) (ptb_path demo_args) = Inr open_script"
    by (simp add: demo_world_def)
  from unterminated_quote_aborts [OF u r] u r show ?thesis by simp
qed

text \<open>
  C9, as stated, fails: the script \<^verbatim>\<open>"hello world"\<close> has the single token
  \<^verbatim>\<open>hello world\<close>, and that token, split again, gives two tokens.
\<close>

theorem retokenize_counterexample:
  "shlex_split ([dquote] @ ''hello world'' @ [dquote]) = Inr [''hello world''] \<and>
   shlex_split ''hello world'' = Inr [''hello'', ''world''] \<and>
   shlex_split ''hello world'' \<noteq> Inr [''hello world'']"
  by code_simp

text \<open>
  C9, amended.  A string, split again, gives exactly itself as the only token if and only
  if it is not empty and has no whitespace, comment sign, quote or backslash in it.
\<close>

theorem retokenize_plain_token:
  "shlex_split tok = Inr [tok] \<longleftrightarrow> tok \<noteq> [] \<and> list_all is_plain tok"
proof
  assume "shlex_split tok = Inr [tok]"
  then show "tok \<noteq> [] \<and> list_all is_plain tok" by (rule shlex_split_fixed_point)
next
  assume "tok \<noteq> [] \<and> list_all is_plain tok"
  then show "shlex_split tok = Inr [tok]" by (simp add: shlex_split_plain)
qed

theorem retokenize_plain_token_witness:
  "''a.txt'' \<noteq> [] \<and> list_all is_plain ''a.txt'' \<and> shlex_split ''a.txt'' = Inr [''a.txt'']"
proof -
  have p: "''a.txt'' \<noteq> [] \<and> list_all is_plain ''a.txt''"
    by (simp add: is_plain_def whitespace_def commenters_def quotes_def escape_def)
  from retokenize_plain_token [of "''a.txt''"] p show ?thesis by simp
qed

section \<open>Expanding the tokens\<close>

text \<open>
  C5.  When the environment has every name a token refers to, the expansion is the token
  with each reference replaced by the value of its name, the values copied as they are and
  not scanned again, the other characters copied unchanged, from left to right.  The
  references are: text without a dollar sign holds none; a dollar sign followed by a
  non-empty run of word characters, which ends at the end of the token or before another
  character, is a reference to that run; a dollar sign, an opening brace, a non-empty run
  of characters other than the closing brace, and a closing brace are a reference to that
  run.
\<close>

theorem expand_env_substitutes:
  "((\<forall>n \<in> set (references (pieces tok)). env n \<noteq> None) \<longrightarrow>
      expand_env env tok = Inr (substitute env (pieces tok))) \<and>
   (CHR ''$'' \<notin> set pre \<longrightarrow> pieces (pre @ rest) = map Text pre @ pieces rest) \<and>
   (bare \<noteq> [] \<and> list_all is_word_char bare \<and> (after = [] \<or> \<not> is_word_char (hd after)) \<longrightarrow>
      pieces (CHR ''$'' # bare @ after) = Reference bare # pieces after) \<and>
   (braced \<noteq> [] \<and> CHR ''}'' \<notin> set braced \<longrightarrow>
      pieces (CHR ''$'' # CHR ''{'' # braced @ CHR ''}'' # behind) = Reference braced # pieces behind)"
proof (intro conjI impI)
  assume "\<forall>n \<in> set (references (pieces tok)). env n \<noteq> None"
  then have "find (\<lambda>n. env n = None) (references (pieces tok)) = None"
    by (simp add: find_None_iff)
  then show "expand_env env tok = Inr (substitute env (pieces tok))"
    by (simp add: expand_env_pieces)
next
  assume "CHR ''$'' \<notin> set pre"
  then show "pieces (pre @ rest) = map Text pre @ pieces rest" by (rule pieces_text)
next
  assume "bare \<noteq> [] \<and> list_all is_word_char bare \<and> (after = [] \<or> \<not> is_word_char (hd after))"
  then show "pieces (CHR ''$'' # bare @ after) = Reference bare # pieces after"
    by (intro pieces_bare) simp_all
next
  assume "braced \<noteq> [] \<and> CHR ''}'' \<notin> set braced"
  then show "pieces (CHR ''$'' # CHR ''{'' # braced @ CHR ''}'' # behind) = Reference braced # pieces behind"
    by (intro pieces_braced) simp_all
qed

theorem expand_env_substitutes_witness:
  "references (pieces ''x=$DST,${my var}-$SRC$'') = [''DST'', ''my var'', ''SRC''] \<and>
   demo_env ''DST'' \<noteq> None \<and> demo_env ''my var'' \<noteq> None \<and> demo_env ''SRC'' \<noteq> None \<and>
   expand_env demo_env ''x=$DST,${my var}-$SRC$'' = Inr (''x=$SRC,it'' @ [squote] @ ''s-a b$'') \<and>
   CHR ''$'' \<notin> set ''x='' \<and>
   pieces (''x='' @ ''$DST'') = map Text ''x='' @ pieces ''$DST'' \<and>
   list_all is_word_char ''DST'' \<and> \<not> is_word_char (hd '',a'') \<and>
   pieces (CHR ''$'' # ''DST'' @ '',a'') = Reference ''DST'' # pieces '',a'' \<and>
   CHR ''}'' \<notin> set ''my var'' \<and>
   pieces (CHR ''$'' # CHR ''{'' # ''my var'' @ CHR ''}'' # ''-'') = Reference ''my var'' # pieces ''-''"
proof -
  have refs: "references (pieces ''x=$DST,${my var}-$SRC$'') = [''DST'', ''my var'', ''SRC'']"
    by code_simp
  have h: "\<forall>n \<in> set (references (pieces ''x=$DST,${my var}-$SRC$'')). demo_env n \<noteq> None"
    unfolding refs by (simp add: demo_env_def)
  have s: "substitute demo_env (pieces ''x=$DST,${my var}-$SRC$'') = ''x=$SRC,it'' @ [squote] @ ''s-a b$''"
    by code_simp
  have v: "demo_env ''DST'' \<noteq> None \<and> demo_env ''my var'' \<noteq> None \<and> demo_env ''SRC'' \<noteq> None"
    by (simp add: demo_env_def)
  have p: "CHR ''$'' \<notin> set ''x=''" by simp
  have b: "''DST'' \<noteq> [] \<and> list_all is_word_char ''DST'' \<and> ('',a'' = [] \<or> \<not> is_word_char (hd '',a''))"
    by (simp add: is_word_char_def)
  have c: "''my var'' \<noteq> [] \<and> CHR ''}'' \<notin> set ''my var''" by simp
  note t = expand_env_substitutes [of "''x=$DST,${my var}-$SRC$''" demo_env "''x=''" "''$DST''"
      "''DST''" "'',a''" "''my var''" "''-''"]
  from t h s have 1: "expand_env demo_env ''x=$DST,${my var}-$SRC$'' = Inr (''x=$SRC,it'' @ [squote] @ ''s-a b$'')"
    by simp
  from t p have 2: "pieces (''x='' @ ''$DST'') = map Text ''x='' @ pieces ''$DST''" by blast
  from t b have 3: "pieces (CHR ''$'' # ''DST'' @ '',a'') = Reference ''DST'' # pieces '',a''" by blast
  from t c have 4: "pieces (CHR ''$'' # CHR ''{'' # ''my var'' @ CHR ''}'' # ''-'') = Reference ''my var'' # pieces ''-''"
    by blast
  from b have b': "list_all is_word_char ''DST'' \<and> \<not> is_word_char (hd '',a'')" by simp
  from refs v 1 p 2 b' 3 c 4 show ?thesis by blast
qed

text \<open>
  C1.  When a token of the script refers to a name that the environment lacks, the run
  prints the message naming the first such name, in token order and from left to right
  inside a token, on standard error, ends with exit code 1, and hands no command to the
  operating system.
\<close>

theorem missing_variable_aborts:
  assumes "read_text w (ptb_path a) = Inr src"
    and "shlex_split src = Inr toks"
    and "find (\<lambda>n. environ w n = None) (concat (map (\<lambda>t. references (pieces t)) toks)) = Some name"
  shows "script w a = ([Stderr (''Missing required environment variable: '' @ name)], 1) \<and>
         invocations (fst (script w a)) = []"
proof -
  from assms(2,3) have "script_tokens (environ w) src = Inl (missing name)"
    by (simp add: script_tokens_def expand_tokens_pieces)
  with assms(1) have "script w a = ([Stderr (''Missing required environment variable: '' @ name)], 1)"
    by (simp add: script_def main_def missing_def)
  then show ?thesis by simp
qed

theorem missing_variable_aborts_witness:
  "read_text (demo_world ''move $SRC ${TO}/$NAME'' demo_env (Exited 0)) (ptb_path demo_args) =
     Inr ''move $SRC ${TO}/$NAME'' \<and>
   shlex_split ''move $SRC ${TO}/$NAME'' = Inr [''move'', ''$SRC'', ''${TO}/$NAME''] \<and>
   find (\<lambda>n. environ (demo_world ''move $SRC ${TO}/$NAME'' demo_env (Exited 0)) n = None)
     (concat (map (\<lambda>t. references (pieces t)) [''move'', ''$SRC'', ''${TO}/$NAME''])) = Some ''TO'' \<and>
   script (demo_world ''move $SRC ${TO}/$NAME'' demo_env (Exited 0)) demo_args =
     ([Stderr ''Missing required environment variable: TO''], 1) \<and>
   invocations (fst (script (demo_world ''move $SRC ${TO}/$NAME'' demo_env (Exited 0)) demo_args)) = []"
proof -
  have r: "read_text (demo_world ''move $SRC ${TO}/$NAME'' demo_env (Exited 0)) (ptb_path demo_args) =
     Inr ''move $SRC ${TO}/$NAME''"
    by (simp add: demo_world_def)
  have t: "shlex_split ''move $SRC ${TO}/$NAME'' = Inr [''move'', ''$SRC'', ''${TO}/$NAME'']"
    by code_simp
  have refs: "concat (map (\<lambda>t. references (pieces t)) [''move'', ''$SRC'', ''${TO}/$NAME'']) =
      [''SRC'', ''TO'', ''NAME'']"
    by code_simp
  have f: "find (\<lambda>n. environ (demo_world ''move $SRC ${TO}/$NAME'' demo_env (Exited 0)) n = None)
     (concat (map (\<lambda>t. references (pieces t)) [''move'', ''$SRC'', ''${TO}/$NAME''])) = Some ''TO''"
    unfolding refs by (simp add: demo_world_def demo_env_def)
  from missing_variable_aborts [OF r t f] r t f show ?thesis by simp
qed

text \<open>
  C6.  Every command the run hands to the operating system ends with as many script
  arguments as the split gave tokens, the i-th being the expansion of the i-th token: a
  value with blanks or quote characters in it stays one argument.
\<close>

theorem tokens_not_resplit:
  assumes "cmd \<in> set (invocations (fst (script w a)))"
  shows "\<exists>src toks toks'.
           read_text w (ptb_path a) = Inr src \<and> shlex_split src = Inr toks \<and>
           cmd = [''sui'', ''client'', ''ptb''] @ extra a @ toks' \<and>
           length toks' = length toks \<and>
           list_all2 (\<lambda>t t'. expand_env (environ w) t = Inr t') toks toks'"
proof (cases "read_text w (ptb_path a)")
  case (Inl e)
  with assms show ?thesis by (simp add: invocations_script main_def)
next
  case (Inr src)
  show ?thesis
  proof (cases "script_tokens (environ w) src")
    case (Inl f)
    with Inr assms show ?thesis
      by (cases f) (simp add: invocations_script main_def invocations_Stderr)
  next
    case tokens: (Inr toks')
    show ?thesis
    proof (cases "toks' = []")
      case True
      with Inr tokens assms show ?thesis by (simp add: invocations_script main_def)
    next
      case False
      from script_invocations [OF Inr tokens False] assms
      have cmd: "cmd = [''sui'', ''client'', ''ptb''] @ extra a @ toks'" by simp
      from tokens obtain toks where split: "shlex_split src = Inr toks"
        and ex: "expand_tokens (environ w) toks = Inr toks'"
        by (auto simp: script_tokens_def split: sum.splits)
      from expand_tokens_all2 [OF ex]
      have all2: "list_all2 (\<lambda>t t'. expand_env (environ w) t = Inr t') toks toks'" .
      then have "length toks' = length toks" by (simp add: list_all2_lengthD)
      with Inr split cmd all2 show ?thesis by blast
    qed
  qed
qed

theorem tokens_not_resplit_witness:
  "[''sui'', ''client'', ''ptb'', ''--dry-run'', ''hello'', ''big  world '' @ [squote] @ ''x'', ''end'']
     \<in> set (invocations (fst (script (demo_world ''hello $WHO end'' spaced_env (Exited 0)) demo_args))) \<and>
   (\<exists>src toks toks'.
       read_text (demo_world ''hello $WHO end'' spaced_env (Exited 0)) (ptb_path demo_args) = Inr src \<and>
       shlex_split src = Inr toks \<and>
       [''sui'', ''client'', ''ptb'', ''--dry-run'', ''hello'', ''big  world '' @ [squote] @ ''x'', ''end''] =
         [''sui'', ''client'', ''ptb''] @ extra demo_args @ toks' \<and>
       length toks' = length toks \<and>
       list_all2 (\<lambda>t t'. expand_env (environ (demo_world ''hello $WHO end'' spaced_env (Exited 0))) t = Inr t')
         toks toks')"
proof -
  have t: "script_tokens spaced_env ''hello $WHO end'' =
      Inr [''hello'', ''big  world '' @ [squote] @ ''x'', ''end'']"
    by code_simp
  have h: "[''sui'', ''client'', ''ptb'', ''--dry-run'', ''hello'', ''big  world '' @ [squote] @ ''x'', ''end'']
     \<in> set (invocations (fst (script (demo_world ''hello $WHO end'' spaced_env (Exited 0)) demo_args)))"
    by (simp add: script_def main_def demo_world_def demo_args_def t run_checked_def Let_def)
  from tokens_not_resplit [OF h] h show ?thesis by blast
qed

text \<open>
  C10.  Expansion is applied to every token of the script in the same way, however the
  token was quoted.  For every script, the result of line 55 is given by the tokens alone:
  the failure for the first missing name among the references of the tokens, or each token
  with its references replaced.  In a script written word by word, every word is one
  token, and the token is the word with its quote characters removed, so a reference inside
  single quotes is expanded like one outside.  In particular \<^verbatim>\<open>'$NAME'\<close> gives the value of
  \<^verbatim>\<open>NAME\<close>, or the missing-variable failure when the environment lacks it.
\<close>

theorem single_quotes_do_not_suppress_expansion:
  "script_tokens env src =
     (case shlex_split src of
        Inl e \<Rightarrow> Inl ([], ValueError e)
      | Inr toks \<Rightarrow>
          (case find (\<lambda>n. env n = None) (concat (map (\<lambda>t. references (pieces t)) toks)) of
             Some n \<Rightarrow> Inl (missing n)
           | None \<Rightarrow> Inr (map (\<lambda>t. substitute env (pieces t)) toks))) \<and>
   (list_all valid_word ws \<longrightarrow>
      shlex_split (script_text ws) = Inr (map word_value ws) \<and>
      script_tokens env (script_text ws) =
        (case find (\<lambda>n. env n = None) (concat (map (\<lambda>w. references (pieces (word_value w))) ws)) of
           Some n \<Rightarrow> Inl (missing n)
         | None \<Rightarrow> Inr (map (\<lambda>w. substitute env (pieces (word_value w))) ws))) \<and>
   (name \<noteq> [] \<and> list_all is_word_char name \<longrightarrow>
      script_tokens env (squote # CHR ''$'' # name @ [squote]) =
        (case env name of None \<Rightarrow> Inl (missing name) | Some v \<Rightarrow> Inr [v]))"
proof (intro conjI impI)
  show "script_tokens env src =
     (case shlex_split src of
        Inl e \<Rightarrow> Inl ([], ValueError e)
      | Inr toks \<Rightarrow>
          (case find (\<lambda>n. env n = None) (concat (map (\<lambda>t. references (pieces t)) toks)) of
             Some n \<Rightarrow> Inl (missing n)
           | None \<Rightarrow> Inr (map (\<lambda>t. substitute env (pieces t)) toks)))"
    by (simp add: script_tokens_def expand_tokens_pieces split: sum.splits)
next
  assume v: "list_all valid_word ws"
  then show "shlex_split (script_text ws) = Inr (map word_value ws)"
    by (rule shlex_split_script_text)
  then show "script_tokens env (script_text ws) =
        (case find (\<lambda>n. env n = None) (concat (map (\<lambda>w. references (pieces (word_value w))) ws)) of
           Some n \<Rightarrow> Inl (missing n)
         | None \<Rightarrow> Inr (map (\<lambda>w. substitute env (pieces (word_value w))) ws))"
    by (simp add: script_tokens_def expand_tokens_pieces comp_def split: option.splits)
next
  assume n: "name \<noteq> [] \<and> list_all is_word_char name"
  then have "squote \<notin> set name"
    by (auto simp: list_all_iff dest: word_char_not_squote)
  then have "squote \<notin> set (CHR ''$'' # name)" by simp
  from shlex_split_single_quoted [OF this]
  have s: "shlex_split (squote # CHR ''$'' # name @ [squote]) = Inr [CHR ''$'' # name]" by simp
  from n have "pieces (CHR ''$'' # name @ []) = Reference name # pieces []"
    by (intro pieces_bare) simp_all
  then have "expand_env env (CHR ''$'' # name) =
      (case env name of None \<Rightarrow> Inl (missing name) | Some v \<Rightarrow> Inr v)"
    by (simp add: expand_env_pieces split: option.splits)
  with s show "script_tokens env (squote # CHR ''$'' # name @ [squote]) =
        (case env name of None \<Rightarrow> Inl (missing name) | Some v \<Rightarrow> Inr [v])"
    by (simp add: script_tokens_def split: option.splits)
qed

theorem single_quotes_do_not_suppress_expansion_witness:
  "list_all valid_word quoted_script \<and>
   script_text quoted_script =
     ''move '' @ [squote] @ ''$SRC'' @ [squote] @ '' to='' @ [dquote] @ ''$DST x'' @ [dquote] @
     [squote] @ ''${my var}'' @ [squote] \<and>
   shlex_split (script_text quoted_script) = Inr [''move'', ''$SRC'', ''to=$DST x${my var}''] \<and>
   script_tokens demo_env (script_text quoted_script) =
     Inr [''move'', ''a b'', ''to=$SRC xit'' @ [squote] @ ''s''] \<and>
   script_tokens Map.empty (script_text quoted_script) = Inl (missing ''SRC'') \<and>
   ''SRC'' \<noteq> [] \<and> list_all is_word_char ''SRC'' \<and>
   script_tokens demo_env (squote # CHR ''$'' # ''SRC'' @ [squote]) = Inr [''a b'']"
proof -
  have v: "list_all valid_word quoted_script"
    by (simp add: quoted_script_def valid_word_def is_plain_def whitespace_def commenters_def
                  quotes_def escape_def)
  have t: "script_text quoted_script =
     ''move '' @ [squote] @ ''$SRC'' @ [squote] @ '' to='' @ [dquote] @ ''$DST x'' @ [dquote] @
     [squote] @ ''${my var}'' @ [squote]"
    by (simp add: quoted_script_def script_text_def word_text_def)
  have wv: "map word_value quoted_script = [''move'', ''$SRC'', ''to=$DST x${my var}'']"
    by (simp add: quoted_script_def word_value_def)
  have refs: "concat (map (\<lambda>w. references (pieces (word_value w))) quoted_script) =
      [''SRC'', ''DST'', ''my var'']"
    by code_simp
  have sub: "map (\<lambda>w. substitute demo_env (pieces (word_value w))) quoted_script =
      [''move'', ''a b'', ''to=$SRC xit'' @ [squote] @ ''s'']"
    by code_simp
  have f1: "find (\<lambda>n. demo_env n = None) [''SRC'', ''DST'', ''my var''] = None"
    by (simp add: demo_env_def)
  have f2: "find (\<lambda>n. (Map.empty :: string \<rightharpoonup> string) n = None) [''SRC'', ''DST'', ''my var''] = Some ''SRC''"
    by simp
  have w: "''SRC'' \<noteq> [] \<and> list_all is_word_char ''SRC''" by (simp add: is_word_char_def)
  have e: "demo_env ''SRC'' = Some ''a b''" by (simp add: demo_env_def)
  note a = single_quotes_do_not_suppress_expansion [of demo_env "script_text quoted_script" quoted_script "''SRC''"]
  note b = single_quotes_do_not_suppress_expansion [of Map.empty "script_text quoted_script" quoted_script "''SRC''"]
  note a2 = a [THEN conjunct2, THEN conjunct1, rule_format, OF v]
  note b2 = b [THEN conjunct2, THEN conjunct1, rule_format, OF v]
  note a3 = a [THEN conjunct2, THEN conjunct2, rule_format, OF w]
  from a2 have 1: "shlex_split (script_text quoted_script) = Inr (map word_value quoted_script)"
    by (rule conjunct1)
  from a2 [THEN conjunct2, unfolded refs f1 sub]
  have 2: "script_tokens demo_env (script_text quoted_script) =
      Inr [''move'', ''a b'', ''to=$SRC xit'' @ [squote] @ ''s'']"
    by simp
  from b2 [THEN conjunct2, unfolded refs f2]
  have 3: "script_tokens Map.empty (script_text quoted_script) = Inl (missing ''SRC'')"
    by simp
  from a3 [unfolded e]
  have 4: "script_tokens demo_env (squote # CHR ''$'' # ''SRC'' @ [squote]) = Inr [''a b'']"
    by simp
  from 1 wv have s1: "shlex_split (script_text quoted_script) = Inr [''move'', ''$SRC'', ''to=$DST x${my var}'']"
    by simp
  from w have w1: "''SRC'' \<noteq> []" and w2: "list_all is_word_char ''SRC''" by blast+
  show ?thesis
    by (intro conjI) (rule v t s1 2 3 w1 w2 4)+
qed

end
